theory Spec2Isabelle
  imports Main "HOL-Library.Word"
begin

section \<open>Shared declarations of package tusd\<close>

text \<open>
  Go's \<open>int64\<close> is a 64-bit two's complement integer whose arithmetic wraps around;
  comparisons read it as a signed value (\<open>sint\<close>).
\<close>

type_synonym int64 = "64 word"

text \<open>
  Go's \<open>error\<close> values. \<open>ErrNotImplemented\<close> and \<open>ErrFileLocked\<close> are the two
  package-level errors of tusd that the code under study returns by name; every other
  error is one that a wrapped data store produced, kept opaque as \<open>ErrOther\<close>.
  A Go result of type \<open>error\<close> is an \<open>error option\<close>, \<open>None\<close> being \<open>nil\<close>.
\<close>

datatype error = ErrNotImplemented | ErrFileLocked | ErrOther string

section \<open>Package memorylocker\<close>

text \<open>
  \<open>MemoryLocker\<close> embeds a \<open>tusd.DataStore\<close> (never touched by the two methods below,
  so its type is left open; the field is written \<open>DataStore'\<close>, the plain name being
  the field of \<open>Config\<close>) and owns the lock table \<open>locks\<close>, a \<open>map[string]bool\<close>.
\<close>

record 'ds MemoryLocker =
  DataStore' :: 'ds
  locks :: "string \<rightharpoonup> bool"

definition NewMemoryLocker :: "'ds \<Rightarrow> 'ds MemoryLocker" where
  "NewMemoryLocker store = \<lparr>DataStore' = store, locks = Map.empty\<rparr>"

text \<open>
  \<open>LockUpload\<close>: the comma-ok lookup \<open>_, ok := locker.locks[id]\<close> tests presence of the
  key; when present the method returns \<open>ErrFileLocked\<close>, otherwise it stores \<open>true\<close>
  under the key and returns \<open>nil\<close>.
\<close>

definition MemoryLocker_LockUpload ::
  "string \<Rightarrow> 'ds MemoryLocker \<Rightarrow> error option \<times> 'ds MemoryLocker" where
  "MemoryLocker_LockUpload id' locker =
     (if locks locker id' \<noteq> None then (Some ErrFileLocked, locker)
      else (None, locker\<lparr>locks := (locks locker)(id' \<mapsto> True)\<rparr>))"

text \<open>\<open>UnlockUpload\<close>: \<open>delete(locker.locks, id)\<close>, then \<open>return nil\<close>.\<close>

definition MemoryLocker_UnlockUpload ::
  "string \<Rightarrow> 'ds MemoryLocker \<Rightarrow> error option \<times> 'ds MemoryLocker" where
  "MemoryLocker_UnlockUpload id' locker =
     (None, locker\<lparr>locks := (locks locker)(id' := None)\<rparr>)"

section \<open>Package limitedstore\<close>

subsection \<open>The wrapped data store\<close>

text \<open>
  \<open>tusd.FileInfo\<close> is declared outside the files under study; \<open>NewUpload\<close> reads
  only its \<open>Size\<close> field and hands the whole value on to the wrapped store.
\<close>

record FileInfo =
  Size :: int64

text \<open>An \<open>io.Reader\<close> is represented by the bytes it yields.\<close>

type_synonym reader = string

text \<open>
  The wrapped store is an interface value whose implementation is not part of the
  package. Its state is represented by the sequence of calls it has received so far, and
  each of its methods by a function from that history and the arguments to the values
  the call returns; every behaviour a store can show is such a function. The optional
  interfaces (\<open>GetReaderDataStore\<close>, \<open>LockerDataStore\<close> with its two methods,
  \<open>FinisherDataStore\<close>, \<open>ConcaterDataStore\<close>) are optional fields: \<open>None\<close> when the
  type assertion of the source answers \<open>ok = false\<close>.
\<close>

datatype call =
    CallNewUpload FileInfo
  | CallTerminate string
  | CallGetReader string
  | CallLockUpload string
  | CallUnlockUpload string
  | CallFinishUpload string
  | CallConcatUploads string "string list"

record terminaterDataStore =
  ds_NewUpload :: "call list \<Rightarrow> FileInfo \<Rightarrow> string \<times> error option"
  ds_Terminate :: "call list \<Rightarrow> string \<Rightarrow> error option"
  ds_GetReader :: "(call list \<Rightarrow> string \<Rightarrow> reader option \<times> error option) option"
  ds_Locker :: "((call list \<Rightarrow> string \<Rightarrow> error option)
                 \<times> (call list \<Rightarrow> string \<Rightarrow> error option)) option"
  ds_FinishUpload :: "(call list \<Rightarrow> string \<Rightarrow> error option) option"
  ds_ConcatUploads :: "(call list \<Rightarrow> string \<Rightarrow> string list \<Rightarrow> error option) option"

subsection \<open>The store and its bookkeeping\<close>

text \<open>
  The fields of \<open>LimitedStore\<close>, and with them \<open>received\<close>, the calls the wrapped store
  has received (its state, see above). The mutex is not represented: each exported
  method holds it from entry to return, so the methods below are the atomic steps of
  the store.
\<close>

record LimitedStore =
  StoreSize :: int64
  TerminaterDataStore :: terminaterDataStore
  received :: "call list"
  uploads :: "string \<rightharpoonup> int64"
  usedSize :: int64

definition New :: "int64 \<Rightarrow> terminaterDataStore \<Rightarrow> LimitedStore" where
  "New storeSize dataStore =
     \<lparr>StoreSize = storeSize, TerminaterDataStore = dataStore, received = [],
      uploads = Map.empty, usedSize = 0\<rparr>"

text \<open>
  The slice type \<open>pairlist\<close> (a pair is \<open>key\<close>, \<open>value\<close>) with the three methods that
  make it a \<open>sort.Interface\<close>. \<open>Less\<close> compares the values as signed integers;
  \<open>Swap\<close> is the parallel assignment \<open>p[i], p[j] = p[j], p[i]\<close>. The sort calls them
  with indices below \<open>Len\<close> only.
\<close>

type_synonym pairlist = "(string \<times> int64) list"

definition Len :: "pairlist \<Rightarrow> nat" where
  "Len p = length p"

definition Swap :: "pairlist \<Rightarrow> nat \<Rightarrow> nat \<Rightarrow> pairlist" where
  "Swap p i j = p[i := p ! j, j := p ! i]"

definition Less :: "pairlist \<Rightarrow> nat \<Rightarrow> nat \<Rightarrow> bool" where
  "Less p i j \<longleftrightarrow> sint (snd (p ! i)) < sint (snd (p ! j))"

text \<open>
  \<open>sort.Reverse\<close> and \<open>sort.Sort\<close> come from Go's library. \<open>sort.Reverse(p)\<close> is \<open>p\<close> with
  the arguments of \<open>Less\<close> exchanged. \<open>sort.Sort\<close> is represented by the insertion sort
  the library runs on short slices, written with the interface's methods only:
  \<^verbatim>\<open>for i := 1; i < n; i++ { for j := i; j > 0 && data.Less(j, j-1); j-- { data.Swap(j, j-1) } }\<close>.
  On longer slices the library uses other comparison sorts, which can differ from this
  one only in the order they give to uploads of equal size; every such order is also
  a result of the functions here, for a suitable iteration order of the map (lemma
  \<open>sorted_order_is_reached\<close> below).
\<close>

definition Reverse_Less :: "pairlist \<Rightarrow> nat \<Rightarrow> nat \<Rightarrow> bool" where
  "Reverse_Less p i j \<longleftrightarrow> Less p j i"

fun insertionSort_inner :: "nat \<Rightarrow> pairlist \<Rightarrow> pairlist" where
  "insertionSort_inner 0 p = p"
| "insertionSort_inner (Suc j) p =
     (if Reverse_Less p (Suc j) j then insertionSort_inner j (Swap p (Suc j) j) else p)"

fun insertionSort_outer :: "nat \<Rightarrow> nat \<Rightarrow> pairlist \<Rightarrow> pairlist" where
  "insertionSort_outer 0 i p = p"
| "insertionSort_outer (Suc k) i p = insertionSort_outer k (Suc i) (insertionSort_inner i p)"

definition Sort_Reverse :: "pairlist \<Rightarrow> pairlist" where
  "Sort_Reverse p = insertionSort_outer (Len p - 1) 1 p"

text \<open>
  \<open>for u, h := range store.uploads\<close> yields every entry of the map once, in an order
  that Go leaves open. The sequence of entries it yields is the argument \<open>ranged\<close> of
  \<open>ensureSpace\<close> and \<open>NewUpload\<close> below; \<open>ranges_over\<close> says that a sequence is such an
  enumeration of a map.
\<close>

definition ranges_over :: "(string \<rightharpoonup> int64) \<Rightarrow> pairlist \<Rightarrow> bool" where
  "ranges_over m ranged \<longleftrightarrow> distinct (map fst ranged) \<and> map_of ranged = m"

abbreviation enough_space :: "LimitedStore \<Rightarrow> int64 \<Rightarrow> bool" where
  "enough_space store size' \<equiv> sint (usedSize store + size') \<le> sint (StoreSize store)"

text \<open>
  \<open>terminate\<close>: the call to the wrapped store comes first; on an error nothing else
  happens. \<open>store.uploads[id]\<close> is the zero value for a key that is missing.
\<close>

definition terminate :: "string \<Rightarrow> LimitedStore \<Rightarrow> error option \<times> LimitedStore" where
  "terminate id' store =
     (let err = ds_Terminate (TerminaterDataStore store) (received store) id';
          store = store\<lparr>received := received store @ [CallTerminate id']\<rparr>
      in case err of
           Some e \<Rightarrow> (Some e, store)
         | None \<Rightarrow>
             (let size' = (case uploads store id' of None \<Rightarrow> 0 | Some v \<Rightarrow> v)
              in (None, store\<lparr>uploads := (uploads store)(id' := None),
                                usedSize := usedSize store - size'\<rparr>)))"

definition Terminate :: "string \<Rightarrow> LimitedStore \<Rightarrow> error option \<times> LimitedStore" where
  "Terminate id' store = terminate id' store"

text \<open>The \<open>for\<close> loop of \<open>ensureSpace\<close> over the sorted slice.\<close>

fun evict :: "pairlist \<Rightarrow> int64 \<Rightarrow> LimitedStore \<Rightarrow> error option \<times> LimitedStore" where
  "evict [] size' store = (None, store)"
| "evict (k # ks) size' store =
     (case terminate (fst k) store of
        (Some err, store') \<Rightarrow> (Some err, store')
      | (None, store') \<Rightarrow>
          if enough_space store' size' then (None, store') else evict ks size' store')"

text \<open>
  \<open>ensureSpace\<close>: when the space is short, the slice is filled in the order of the
  iteration, sorted, and traversed.
\<close>

definition ensureSpace ::
  "pairlist \<Rightarrow> int64 \<Rightarrow> LimitedStore \<Rightarrow> error option \<times> LimitedStore" where
  "ensureSpace ranged size' store =
     (if enough_space store size' then (None, store)
      else (let sortedUploads = ranged;
                sortedUploads = Sort_Reverse sortedUploads
            in evict sortedUploads size' store))"

definition NewUpload ::
  "pairlist \<Rightarrow> FileInfo \<Rightarrow> LimitedStore \<Rightarrow> (string \<times> error option) \<times> LimitedStore" where
  "NewUpload ranged info store =
     (case ensureSpace ranged (Size info) store of
        (Some err, store) \<Rightarrow> (('''', Some err), store)
      | (None, store) \<Rightarrow>
          (let (id', err) = ds_NewUpload (TerminaterDataStore store) (received store) info;
               store = store\<lparr>received := received store @ [CallNewUpload info]\<rparr>
           in case err of
                Some e \<Rightarrow> (('''', Some e), store)
              | None \<Rightarrow>
                  ((id', None), store\<lparr>usedSize := usedSize store + Size info,
                                       uploads := (uploads store)(id' \<mapsto> Size info)\<rparr>)))"

subsection \<open>Calls passed on to the wrapped store\<close>

definition GetReader ::
  "string \<Rightarrow> LimitedStore \<Rightarrow> (reader option \<times> error option) \<times> LimitedStore" where
  "GetReader id' store =
     (case ds_GetReader (TerminaterDataStore store) of
        Some s \<Rightarrow> (s (received store) id',
                   store\<lparr>received := received store @ [CallGetReader id']\<rparr>)
      | None \<Rightarrow> ((None, Some ErrNotImplemented), store))"

definition LimitedStore_LockUpload :: "string \<Rightarrow> LimitedStore \<Rightarrow> error option \<times> LimitedStore" where
  "LimitedStore_LockUpload id' store =
     (case ds_Locker (TerminaterDataStore store) of
        Some s \<Rightarrow> (fst s (received store) id',
                   store\<lparr>received := received store @ [CallLockUpload id']\<rparr>)
      | None \<Rightarrow> (None, store))"

definition LimitedStore_UnlockUpload :: "string \<Rightarrow> LimitedStore \<Rightarrow> error option \<times> LimitedStore" where
  "LimitedStore_UnlockUpload id' store =
     (case ds_Locker (TerminaterDataStore store) of
        Some s \<Rightarrow> (snd s (received store) id',
                   store\<lparr>received := received store @ [CallUnlockUpload id']\<rparr>)
      | None \<Rightarrow> (None, store))"

definition FinishUpload :: "string \<Rightarrow> LimitedStore \<Rightarrow> error option \<times> LimitedStore" where
  "FinishUpload id' store =
     (case ds_FinishUpload (TerminaterDataStore store) of
        Some s \<Rightarrow> (s (received store) id',
                   store\<lparr>received := received store @ [CallFinishUpload id']\<rparr>)
      | None \<Rightarrow> (None, store))"

definition ConcatUploads ::
  "string \<Rightarrow> string list \<Rightarrow> LimitedStore \<Rightarrow> error option \<times> LimitedStore" where
  "ConcatUploads dest src store =
     (case ds_ConcatUploads (TerminaterDataStore store) of
        Some s \<Rightarrow> (s (received store) dest src,
                   store\<lparr>received := received store @ [CallConcatUploads dest src]\<rparr>)
      | None \<Rightarrow> (Some ErrNotImplemented, store))"


section \<open>Package tusd: the routed handler\<close>

text \<open>
  \<open>Config.DataStore\<close> is an interface value: \<open>None\<close> when it is \<open>nil\<close> (as in
  \<open>TestOptions\<close>, which sets \<open>MaxSize\<close> only), otherwise the method set of its dynamic
  type, of which \<open>NewHandler\<close> asks two questions. \<open>Config\<close> is declared outside the
  files under study; the two fields are the ones these files mention.
\<close>

record dataStore =
  has_Terminate :: bool
  has_GetReader :: bool

record Config =
  DataStore :: "dataStore option"
  MaxSize :: int64

text \<open>
  The type assertions \<open>config.DataStore.(TerminaterDataStore)\<close> and
  \<open>config.DataStore.(GetReaderDataStore)\<close>, of which only \<open>ok\<close> is used.
\<close>

definition is_TerminaterDataStore :: "dataStore option \<Rightarrow> bool" where
  "is_TerminaterDataStore ds = (case ds of None \<Rightarrow> False | Some d \<Rightarrow> has_Terminate d)"

definition is_GetReaderDataStore :: "dataStore option \<Rightarrow> bool" where
  "is_GetReaderDataStore ds = (case ds of None \<Rightarrow> False | Some d \<Rightarrow> has_GetReader d)"

text \<open>
  The router \<open>pat\<close> is a library; a mux is represented by the registrations made on it,
  in order, each naming the method of the unrouted handler that was registered.
  \<open>handler.Middleware(mux)\<close> wraps the mux, which \<open>NewHandler\<close> goes on to fill.
\<close>

datatype handlerFunc = PostFile | HeadFile | PatchFile | DelFile | GetFile

datatype route =
    Post string handlerFunc
  | Head string handlerFunc
  | Add string string handlerFunc
  | Del string handlerFunc
  | Get string handlerFunc

datatype 'u httpHandler = Middleware 'u "route list"

record ('u, 'c) Handler =
  unroutedHandler :: 'u
  routeHandler :: "'u httpHandler"
  CompleteUploads :: 'c

text \<open>
  \<open>NewUnroutedHandler\<close> and the \<open>CompleteUploads\<close> field of its result belong to a file
  that is not among those under study; they are arguments of \<open>NewHandler\<close> here.
\<close>

definition NewHandler ::
  "(Config \<Rightarrow> error + 'u) \<Rightarrow> ('u \<Rightarrow> 'c) \<Rightarrow> Config \<Rightarrow> error + ('u, 'c) Handler" where
  "NewHandler NewUnroutedHandler CompleteUploads_of config =
     (case NewUnroutedHandler config of
        Inl err \<Rightarrow> Inl err
      | Inr handler \<Rightarrow>
          (let mux = [];
               mux = mux @ [Post '''' PostFile];
               mux = mux @ [Head '':id'' HeadFile];
               mux = mux @ [Add ''PATCH'' '':id'' PatchFile];
               mux = (if is_TerminaterDataStore (DataStore config)
                      then mux @ [Del '':id'' DelFile] else mux);
               mux = (if is_GetReaderDataStore (DataStore config)
                      then mux @ [Get '':id'' GetFile] else mux)
           in Inr \<lparr>unroutedHandler = handler,
                    routeHandler = Middleware handler mux,
                    CompleteUploads = CompleteUploads_of handler\<rparr>))"

text \<open>
  \<open>ServeHTTP\<close> hands every request to \<open>rHandler.routeHandler\<close>; what serves is the
  handler stored at construction.
\<close>

definition ServeHTTP :: "('u, 'c) Handler \<Rightarrow> 'u httpHandler" where
  "ServeHTTP rHandler = routeHandler rHandler"

section \<open>Notions used to state the properties\<close>

text \<open>
  What the sorted slice turns out to be: it holds each entry of the map once, and no
  element has a smaller value than a later one.
\<close>

definition is_sortedUploads :: "(string \<rightharpoonup> int64) \<Rightarrow> pairlist \<Rightarrow> bool" where
  "is_sortedUploads m sortedUploads \<longleftrightarrow>
     distinct (map fst sortedUploads) \<and> map_of sortedUploads = m
     \<and> sorted_wrt (\<lambda>a b. \<not> sint (snd a) < sint (snd b)) sortedUploads"

text \<open>
  The insertion sort on lists, used to analyse the one on slices: \<open>place\<close> puts an
  element into a sorted prefix that is held nearest element first, \<open>insertion\<close> does so
  for each element of the rest in turn.
\<close>

fun place :: "string \<times> int64 \<Rightarrow> pairlist \<Rightarrow> pairlist" where
  "place x [] = [x]"
| "place x (y # ys) = (if sint (snd y) < sint (snd x) then y # place x ys else x # y # ys)"

fun insertion :: "pairlist \<Rightarrow> pairlist \<Rightarrow> pairlist" where
  "insertion acc [] = rev acc"
| "insertion acc (x # xs) = insertion (place x acc) xs"

text \<open>
  The sum of the sizes recorded in the bookkeeping map, taken in \<open>int64\<close> like
  \<open>usedSize\<close> itself, and the accounting invariant (a Go map has finitely many keys).
\<close>

definition sum_sizes :: "(string \<rightharpoonup> int64) \<Rightarrow> int64" where
  "sum_sizes m = (\<Sum>k\<in>dom m. case m k of None \<Rightarrow> 0 | Some v \<Rightarrow> v)"

text \<open>The same sum over the integers, each size read as the signed value it stands for.\<close>

definition exact_sum :: "(string \<rightharpoonup> int64) \<Rightarrow> int" where
  "exact_sum m = (\<Sum>k\<in>dom m. case m k of None \<Rightarrow> 0 | Some v \<Rightarrow> sint v)"

definition accounted :: "LimitedStore \<Rightarrow> bool" where
  "accounted store \<longleftrightarrow> finite (dom (uploads store)) \<and> usedSize store = sum_sizes (uploads store)"

text \<open>
  Sequences of the two operations that change the bookkeeping. A creation carries the
  order in which the map is iterated in it. \<open>states_after\<close> lists the store after each operation;
  \<open>fresh_ids\<close> says that whenever a creation of the sequence succeeds, the id the
  wrapped store returned was not a tracked one when the operation began, as is the case
  for a store that never returns an id twice (every tracked id was returned by it
  earlier).
\<close>

datatype operation = DoNewUpload pairlist FileInfo | DoTerminate string

fun perform :: "operation \<Rightarrow> LimitedStore \<Rightarrow> LimitedStore" where
  "perform (DoNewUpload ranged info) store = snd (NewUpload ranged info store)"
| "perform (DoTerminate id') store = snd (Terminate id' store)"

fun states_after :: "operation list \<Rightarrow> LimitedStore \<Rightarrow> LimitedStore list" where
  "states_after [] store = []"
| "states_after (op # ops) store = perform op store # states_after ops (perform op store)"

fun returns_fresh_id :: "operation \<Rightarrow> LimitedStore \<Rightarrow> bool" where
  "returns_fresh_id (DoNewUpload ranged info) store =
     (case fst (NewUpload ranged info store) of
        (id', None) \<Rightarrow> uploads store id' = None
      | (id', Some e) \<Rightarrow> True)"
| "returns_fresh_id (DoTerminate id') store = True"

fun fresh_ids :: "operation list \<Rightarrow> LimitedStore \<Rightarrow> bool" where
  "fresh_ids [] store = True"
| "fresh_ids (op # ops) store \<longleftrightarrow> returns_fresh_id op store \<and> fresh_ids ops (perform op store)"

subsection \<open>Stores and data for the worked examples\<close>

text \<open>
  \<open>reliable_store\<close> implements the two mandatory methods only: creation returns an id
  derived from the number of calls received, termination always succeeds.
  \<open>stubborn_store\<close> differs in refusing to terminate the upload \<open>c\<close>.
  \<open>capable_store\<close> implements every optional interface as well.
\<close>

definition fresh_id :: "call list \<Rightarrow> string" where
  "fresh_id h = CHR ''u'' # replicate (length h) CHR ''x''"

definition reliable_store :: terminaterDataStore where
  "reliable_store =
     \<lparr>ds_NewUpload = (\<lambda>h info. (fresh_id h, None)),
      ds_Terminate = (\<lambda>h id'. None),
      ds_GetReader = None, ds_Locker = None, ds_FinishUpload = None, ds_ConcatUploads = None\<rparr>"

definition stubborn_store :: terminaterDataStore where
  "stubborn_store =
     \<lparr>ds_NewUpload = (\<lambda>h info. (fresh_id h, None)),
      ds_Terminate = (\<lambda>h id'. if id' = ''c'' then Some (ErrOther ''busy'') else None),
      ds_GetReader = None, ds_Locker = None, ds_FinishUpload = None, ds_ConcatUploads = None\<rparr>"

definition capable_store :: terminaterDataStore where
  "capable_store =
     \<lparr>ds_NewUpload = (\<lambda>h info. (fresh_id h, None)),
      ds_Terminate = (\<lambda>h id'. None),
      ds_GetReader = Some (\<lambda>h id'. (Some (''bytes of '' @ id'), None)),
      ds_Locker = Some (\<lambda>h id'. Some ErrFileLocked, \<lambda>h id'. None),
      ds_FinishUpload = Some (\<lambda>h id'. Some (ErrOther ''hook'')),
      ds_ConcatUploads = Some (\<lambda>h dest src. None)\<rparr>"

text \<open>
  The example of the specification: uploads of sizes 10, 50, 30 and 5 in a store of
  capacity 40, iterated in that order.
\<close>

definition example_uploads :: pairlist where
  "example_uploads = [(''a'', 10), (''b'', 50), (''c'', 30), (''d'', 5)]"

definition example_store :: "terminaterDataStore \<Rightarrow> LimitedStore" where
  "example_store dataStore =
     \<lparr>StoreSize = 40, TerminaterDataStore = dataStore, received = [],
      uploads = map_of example_uploads, usedSize = 95\<rparr>"

definition example_run :: "operation list" where
  "example_run =
     [DoNewUpload [] \<lparr>Size = 10\<rparr>, DoNewUpload [(''u'', 10)] \<lparr>Size = 35\<rparr>, DoTerminate ''uxx'']"

section \<open>Properties of the memory locker\<close>

text \<open>
  C5. Locking an id that is in the lock table fails with \<open>ErrFileLocked\<close> and returns
  the table as it was; locking an id that is not in the table succeeds and the table
  gains exactly that id. The method is a total, loop-free function of the table, so it
  answers at once in both cases (there is nothing it could wait for). Consequently a
  second lock of the same id directly after a first one always fails, whatever the first
  one did.
\<close>

theorem LockUpload_fail_fast:
  "(locks locker id' \<noteq> None \<longrightarrow>
      MemoryLocker_LockUpload id' locker = (Some ErrFileLocked, locker))
   \<and> (locks locker id' = None \<longrightarrow>
      fst (MemoryLocker_LockUpload id' locker) = None
      \<and> dom (locks (snd (MemoryLocker_LockUpload id' locker))) = insert id' (dom (locks locker))
      \<and> (\<forall>k. k \<noteq> id' \<longrightarrow>
            locks (snd (MemoryLocker_LockUpload id' locker)) k = locks locker k)
      \<and> DataStore' (snd (MemoryLocker_LockUpload id' locker)) = DataStore' locker)
   \<and> (let once = snd (MemoryLocker_LockUpload id' locker)
      in MemoryLocker_LockUpload id' once = (Some ErrFileLocked, once))"
  by (auto simp add: MemoryLocker_LockUpload_def Let_def)

theorem LockUpload_fail_fast_witness:
  "locks (NewMemoryLocker ()) ''upload-1'' = None
   \<and> fst (MemoryLocker_LockUpload ''upload-1'' (NewMemoryLocker ())) = None
   \<and> dom (locks (snd (MemoryLocker_LockUpload ''upload-1'' (NewMemoryLocker ())))) = {''upload-1''}
   \<and> locks (snd (MemoryLocker_LockUpload ''upload-1'' (NewMemoryLocker ()))) ''upload-1'' \<noteq> None
   \<and> MemoryLocker_LockUpload ''upload-1''
        (snd (MemoryLocker_LockUpload ''upload-1'' (NewMemoryLocker ())))
      = (Some ErrFileLocked, snd (MemoryLocker_LockUpload ''upload-1'' (NewMemoryLocker ())))"
proof -
  let ?l0 = "NewMemoryLocker ()"
  let ?l1 = "snd (MemoryLocker_LockUpload ''upload-1'' ?l0)"
  have free: "locks ?l0 ''upload-1'' = None"
    by (simp add: NewMemoryLocker_def)
  have held: "locks ?l1 ''upload-1'' \<noteq> None"
    by (simp add: NewMemoryLocker_def MemoryLocker_LockUpload_def)
  have first: "fst (MemoryLocker_LockUpload ''upload-1'' ?l0) = None
      \<and> dom (locks ?l1) = insert ''upload-1'' (dom (locks ?l0))"
    using LockUpload_fail_fast [of "?l0" "''upload-1''"] free by simp
  have second: "MemoryLocker_LockUpload ''upload-1'' ?l1 = (Some ErrFileLocked, ?l1)"
    using LockUpload_fail_fast [of "?l1" "''upload-1''"] held by blast
  have "dom (locks ?l0) = {}"
    by (simp add: NewMemoryLocker_def)
  with free held first second show ?thesis by simp
qed

text \<open>
  C7. Unlocking returns \<open>nil\<close> for every id and every table. Afterwards the id is not
  in the table and every other entry is as before; when the id was not in the table
  (never locked, or unlocked already) the locker is returned exactly as it was.
\<close>

theorem UnlockUpload_never_fails:
  "fst (MemoryLocker_UnlockUpload id' locker) = None
   \<and> locks (snd (MemoryLocker_UnlockUpload id' locker)) = (locks locker)(id' := None)
   \<and> dom (locks (snd (MemoryLocker_UnlockUpload id' locker))) = dom (locks locker) - {id'}
   \<and> DataStore' (snd (MemoryLocker_UnlockUpload id' locker)) = DataStore' locker
   \<and> (locks locker id' = None \<longrightarrow> snd (MemoryLocker_UnlockUpload id' locker) = locker)
   \<and> MemoryLocker_UnlockUpload id' (snd (MemoryLocker_UnlockUpload id' locker))
       = (None, snd (MemoryLocker_UnlockUpload id' locker))"
  by (auto simp add: MemoryLocker_UnlockUpload_def fun_upd_idem)

theorem UnlockUpload_never_fails_witness:
  "locks (NewMemoryLocker ()) ''never-locked'' = None
   \<and> MemoryLocker_UnlockUpload ''never-locked'' (NewMemoryLocker ())
       = (None, NewMemoryLocker ())"
proof -
  have free: "locks (NewMemoryLocker ()) ''never-locked'' = None"
    by (simp add: NewMemoryLocker_def)
  from UnlockUpload_never_fails [of "''never-locked''" "NewMemoryLocker ()"] free
  have "fst (MemoryLocker_UnlockUpload ''never-locked'' (NewMemoryLocker ())) = None
      \<and> snd (MemoryLocker_UnlockUpload ''never-locked'' (NewMemoryLocker ()))
          = NewMemoryLocker ()"
    by blast
  with free show ?thesis by (simp add: prod_eq_iff)
qed

text \<open>
  C10. From any table in which the id is free, locking it and then unlocking it both
  succeed, and the locker that results is equal to the one started from.
\<close>

theorem Lock_then_Unlock_round_trip:
  assumes "locks locker id' = None"
  shows "fst (MemoryLocker_LockUpload id' locker) = None
    \<and> MemoryLocker_UnlockUpload id' (snd (MemoryLocker_LockUpload id' locker)) = (None, locker)"
  using assms
  by (simp add: MemoryLocker_LockUpload_def MemoryLocker_UnlockUpload_def fun_upd_idem)

theorem Lock_then_Unlock_round_trip_witness:
  "locks \<lparr>DataStore' = (), locks = [''a'' \<mapsto> True]\<rparr> ''b'' = None
   \<and> fst (MemoryLocker_LockUpload ''b'' \<lparr>DataStore' = (), locks = [''a'' \<mapsto> True]\<rparr>) = None
   \<and> MemoryLocker_UnlockUpload ''b''
        (snd (MemoryLocker_LockUpload ''b'' \<lparr>DataStore' = (), locks = [''a'' \<mapsto> True]\<rparr>))
      = (None, \<lparr>DataStore' = (), locks = [''a'' \<mapsto> True]\<rparr>)"
proof -
  have free: "locks \<lparr>DataStore' = (), locks = [''a'' \<mapsto> True]\<rparr> ''b'' = None"
    by simp
  from Lock_then_Unlock_round_trip [OF free] free show ?thesis by simp
qed


section \<open>Capacity accounting\<close>

lemma sum_sizes_empty: "sum_sizes Map.empty = 0"
  by (simp add: sum_sizes_def)

lemma sum_sizes_delete:
  assumes "finite (dom m)"
  shows "sum_sizes (m(k := None)) = sum_sizes m - (case m k of None \<Rightarrow> 0 | Some v \<Rightarrow> v)"
proof (cases "m k")
  case None
  then have "m(k := None) = m" by (simp add: fun_upd_idem)
  with None show ?thesis by simp
next
  case (Some v)
  then have k: "k \<in> dom m" by auto
  have "sum_sizes m = (\<Sum>j\<in>insert k (dom m - {k}). case m j of None \<Rightarrow> 0 | Some v \<Rightarrow> v)"
    using k by (simp add: sum_sizes_def insert_absorb)
  also have "\<dots> = v + (\<Sum>j\<in>dom m - {k}. case m j of None \<Rightarrow> 0 | Some v \<Rightarrow> v)"
    using assms Some by (subst sum.insert) auto
  also have "(\<Sum>j\<in>dom m - {k}. case m j of None \<Rightarrow> 0 | Some v \<Rightarrow> v)
      = sum_sizes (m(k := None))"
    unfolding sum_sizes_def by (rule sum.cong) auto
  finally show ?thesis using Some by simp
qed

lemma sum_sizes_insert:
  assumes "finite (dom m)" and "m k = None"
  shows "sum_sizes (m(k \<mapsto> v)) = sum_sizes m + v"
proof -
  have "k \<notin> dom m" using assms(2) by auto
  then have "sum_sizes (m(k \<mapsto> v))
      = v + (\<Sum>j\<in>dom m. case (m(k \<mapsto> v)) j of None \<Rightarrow> 0 | Some v \<Rightarrow> v)"
    using assms(1) by (simp add: sum_sizes_def)
  also have "(\<Sum>j\<in>dom m. case (m(k \<mapsto> v)) j of None \<Rightarrow> 0 | Some v \<Rightarrow> v) = sum_sizes m"
    unfolding sum_sizes_def using \<open>k \<notin> dom m\<close> by (intro sum.cong) auto
  finally show ?thesis by (simp only: add.commute)
qed

text \<open>As long as the exact sum is an \<open>int64\<close> value, the wrapping sum is that value.\<close>

lemma sint_sum_sizes:
  assumes "- (2 ^ 63) \<le> exact_sum m" and "exact_sum m < 2 ^ 63"
  shows "sint (sum_sizes m) = exact_sum m"
proof -
  have "sum_sizes m = (\<Sum>k\<in>dom m. word_of_int (case m k of None \<Rightarrow> 0 | Some v \<Rightarrow> sint v))"
    unfolding sum_sizes_def by (rule sum.cong) (auto split: option.splits)
  also have "\<dots> = word_of_int (exact_sum m)"
    by (simp add: exact_sum_def)
  finally have "sint (sum_sizes m) = signed_take_bit 63 (exact_sum m)"
    by (simp only: sint_sbintrunc') simp
  also have "\<dots> = exact_sum m"
    using assms by (simp add: signed_take_bit_int_eq_self)
  finally show ?thesis .
qed

text \<open>
  A termination keeps the books balanced whether the wrapped store accepts it or not
  and whether the id is tracked or not, and it never adds a key.
\<close>

lemma terminate_accounted:
  "accounted store \<Longrightarrow> accounted (snd (terminate id' store))"
  by (auto simp add: accounted_def terminate_def Let_def sum_sizes_delete split: option.splits)

lemma terminate_dom:
  "dom (uploads (snd (terminate id' store))) \<subseteq> dom (uploads store)"
  by (auto simp add: terminate_def Let_def split: option.splits if_splits)

lemma evict_accounted:
  "accounted store \<Longrightarrow> accounted (snd (evict ps size' store))"
proof (induction ps arbitrary: store)
  case Nil
  then show ?case by simp
next
  case (Cons k ks)
  obtain err store' where t: "terminate (fst k) store = (err, store')"
    by (cases "terminate (fst k) store")
  with Cons.prems terminate_accounted [of store "fst k"] have "accounted store'" by simp
  with Cons.IH t show ?case by (cases err) auto
qed

lemma evict_dom:
  "dom (uploads (snd (evict ps size' store))) \<subseteq> dom (uploads store)"
proof (induction ps arbitrary: store)
  case Nil
  then show ?case by simp
next
  case (Cons k ks)
  obtain err store' where t: "terminate (fst k) store = (err, store')"
    by (cases "terminate (fst k) store")
  with terminate_dom [of "fst k" store] have "dom (uploads store') \<subseteq> dom (uploads store)" by simp
  with Cons.IH [of store'] t show ?case by (cases err) auto
qed

lemma ensureSpace_accounted:
  "accounted store \<Longrightarrow> accounted (snd (ensureSpace ps size' store))"
  by (simp add: ensureSpace_def Let_def evict_accounted)

lemma ensureSpace_dom:
  "dom (uploads (snd (ensureSpace ps size' store))) \<subseteq> dom (uploads store)"
  by (simp add: ensureSpace_def Let_def evict_dom)

lemma NewUpload_accounted:
  assumes "accounted store"
    and "NewUpload ps info store = ((id', err), store')"
    and "err = None \<longrightarrow> uploads store id' = None"
  shows "accounted store'"
proof -
  obtain e1 s1 where e: "ensureSpace ps (Size info) store = (e1, s1)"
    by (cases "ensureSpace ps (Size info) store")
  from assms(1) ensureSpace_accounted [of store ps "Size info"] e have a1: "accounted s1" by simp
  from ensureSpace_dom [of ps "Size info" store] e have d1: "dom (uploads s1) \<subseteq> dom (uploads store)"
    by simp
  show ?thesis
  proof (cases e1)
    case (Some x)
    with assms(2) e a1 show ?thesis by (simp add: NewUpload_def)
  next
    case None
    obtain i e2 where n: "ds_NewUpload (TerminaterDataStore s1) (received s1) info = (i, e2)"
      by (cases "ds_NewUpload (TerminaterDataStore s1) (received s1) info")
    show ?thesis
    proof (cases e2)
      case (Some x)
      with assms(2) e None n a1 show ?thesis
        by (auto simp add: NewUpload_def accounted_def)
    next
      case N2: None
      with assms(2) e None n have eq: "id' = i" "err = None"
        and s': "store' = s1\<lparr>received := received s1 @ [CallNewUpload info],
                   usedSize := usedSize s1 + Size info,
                   uploads := (uploads s1)(i \<mapsto> Size info)\<rparr>"
        by (auto simp add: NewUpload_def)
      with assms(3) d1 have "uploads s1 i = None" by auto
      with a1 s' show ?thesis
        by (simp add: accounted_def sum_sizes_insert)
    qed
  qed
qed

lemma New_accounted: "accounted (New storeSize dataStore)"
  by (simp add: accounted_def New_def sum_sizes_empty)

lemma perform_accounted:
  assumes "accounted store" and "returns_fresh_id op store"
  shows "accounted (perform op store)"
proof (cases op)
  case (DoNewUpload ps info)
  obtain i e s' where r: "NewUpload ps info store = ((i, e), s')"
    by (metis prod.exhaust)
  with assms(2) DoNewUpload have "e = None \<longrightarrow> uploads store i = None"
    by (auto split: option.splits)
  from NewUpload_accounted [OF assms(1) r this] r DoNewUpload show ?thesis by simp
next
  case (DoTerminate i)
  with assms(1) terminate_accounted [of store i] show ?thesis by (simp add: Terminate_def)
qed

lemma states_after_accounted:
  assumes "accounted store" and "fresh_ids ops store"
  shows "\<forall>s\<in>set (states_after ops store). accounted s"
  using assms
proof (induction ops arbitrary: store)
  case Nil
  then show ?case by simp
next
  case (Cons op ops)
  then have "accounted (perform op store)" by (simp add: perform_accounted)
  with Cons show ?case by simp
qed

text \<open>
  C1. Take a store made by \<open>New\<close> and any sequence of \<open>NewUpload\<close> and \<open>Terminate\<close>
  operations in which the wrapped store hands out fresh ids. After each operation of
  the sequence, \<open>usedSize\<close> is the sum of the sizes recorded in \<open>uploads\<close>: the sum
  as \<open>int64\<close> arithmetic computes it, which is the exact sum of the sizes whenever that
  is an \<open>int64\<close> value. This holds for whatever order the iteration took and also when
  calls to the wrapped store fail, so in particular when they all succeed.
\<close>

theorem usedSize_is_sum_of_tracked_sizes:
  assumes "fresh_ids ops (New storeSize dataStore)"
  shows "\<forall>store\<in>set (states_after ops (New storeSize dataStore)).
           usedSize store = sum_sizes (uploads store)
         \<and> (- (2 ^ 63) \<le> exact_sum (uploads store) \<and> exact_sum (uploads store) < 2 ^ 63
              \<longrightarrow> sint (usedSize store) = exact_sum (uploads store))"
  using states_after_accounted [OF New_accounted assms]
  by (simp add: accounted_def sint_sum_sizes)

theorem usedSize_is_sum_of_tracked_sizes_witness:
  "fresh_ids example_run (New 40 reliable_store)
   \<and> map usedSize (states_after example_run (New 40 reliable_store)) = [10, 35, 0]
   \<and> map usedSize (states_after example_run (New 40 reliable_store))
       = map (\<lambda>store. sum_sizes (uploads store)) (states_after example_run (New 40 reliable_store))"
proof -
  have fresh: "fresh_ids example_run (New 40 reliable_store)"
    by (simp add: example_run_def New_def reliable_store_def fresh_id_def NewUpload_def
        ensureSpace_def Sort_Reverse_def Len_def terminate_def Terminate_def Let_def)
  have sizes: "map usedSize (states_after example_run (New 40 reliable_store)) = [10, 35, 0]"
    by (simp add: example_run_def New_def reliable_store_def fresh_id_def NewUpload_def
        ensureSpace_def Sort_Reverse_def Len_def terminate_def Terminate_def Let_def)
  from usedSize_is_sum_of_tracked_sizes [OF fresh]
  have "map usedSize (states_after example_run (New 40 reliable_store))
       = map (\<lambda>store. sum_sizes (uploads store)) (states_after example_run (New 40 reliable_store))"
    by (intro map_cong refl) simp
  with fresh sizes show ?thesis
    by (simp only: simp_thms)
qed

section \<open>The sort\<close>

text \<open>
  The inner loop of the insertion sort, started at the element that follows a prefix
  \<open>xs\<close>, places that element as \<open>place\<close> does; the outer loop is \<open>insertion\<close>.
\<close>

lemma length_place: "length (place x acc) = Suc (length acc)"
  by (induction acc) auto

lemma set_place: "set (place x acc) = insert x (set acc)"
  by (induction acc) auto

lemma distinct_place:
  "distinct (map fst (place x acc)) \<longleftrightarrow> fst x \<notin> fst ` set acc \<and> distinct (map fst acc)"
  by (induction acc) (auto simp add: set_place)

lemma ascending_place:
  assumes "sorted_wrt (\<lambda>a b. \<not> sint (snd b) < sint (snd a)) acc"
  shows "sorted_wrt (\<lambda>a b. \<not> sint (snd b) < sint (snd a)) (place x acc)"
  using assms by (induction acc) (auto simp add: set_place)

lemma place_at_front:
  assumes "\<forall>y\<in>set acc. \<not> sint (snd y) < sint (snd x)"
  shows "place x acc = x # acc"
  using assms by (cases acc) auto

lemma inner_is_place:
  "insertionSort_inner (length xs) (xs @ x # rest) = rev (place x (rev xs)) @ rest"
proof (induction xs arbitrary: rest rule: rev_induct)
  case Nil
  then show ?case by simp
next
  case (snoc y xs)
  let ?p = "(xs @ [y]) @ x # rest"
  have at: "?p ! length xs = y" "?p ! Suc (length xs) = x"
    by (simp_all add: nth_append)
  have swapped: "Swap ?p (Suc (length xs)) (length xs) = xs @ x # y # rest"
    by (simp add: Swap_def at list_update_append nth_append)
  show ?case
  proof (cases "sint (snd y) < sint (snd x)")
    case True
    then have "insertionSort_inner (length (xs @ [y])) ?p
        = insertionSort_inner (length xs) (xs @ x # y # rest)"
      using at swapped by (simp add: Reverse_Less_def Less_def del: append_assoc append.simps)
    also have "\<dots> = rev (place x (rev xs)) @ y # rest"
      by (rule snoc.IH)
    finally show ?thesis using True by simp
  next
    case False
    then have "insertionSort_inner (length (xs @ [y])) ?p = ?p"
      using at by (simp add: Reverse_Less_def Less_def del: append_assoc append.simps)
    with False show ?thesis by simp
  qed
qed

lemma outer_is_insertion:
  "length acc = i \<Longrightarrow> insertionSort_outer (length rest) i (rev acc @ rest) = insertion acc rest"
proof (induction rest arbitrary: acc i)
  case Nil
  then show ?case by simp
next
  case (Cons x rest)
  have "insertionSort_inner i (rev acc @ x # rest) = rev (place x acc) @ rest"
    using inner_is_place [of "rev acc" x rest] Cons.prems by simp
  with Cons.IH [of "place x acc" "Suc i"] Cons.prems show ?case
    by (simp add: length_place)
qed

lemma Sort_Reverse_insertion: "Sort_Reverse (x # xs) = insertion [x] xs"
  using outer_is_insertion [of "[x]" 1 xs] by (simp add: Sort_Reverse_def Len_def)

lemma Sort_Reverse_Nil: "Sort_Reverse [] = []"
  by (simp add: Sort_Reverse_def Len_def)

lemma set_insertion: "set (insertion acc xs) = set acc \<union> set xs"
  by (induction xs arbitrary: acc) (auto simp add: set_place)

lemma distinct_map_rev: "distinct (map f (rev xs)) \<longleftrightarrow> distinct (map f xs)"
  by (metis distinct_rev rev_map)

lemma distinct_insertion:
  "distinct (map fst (insertion acc xs)) \<longleftrightarrow>
     distinct (map fst acc) \<and> distinct (map fst xs) \<and> fst ` set acc \<inter> fst ` set xs = {}"
  by (induction xs arbitrary: acc) (auto simp add: distinct_place set_place distinct_map_rev)

lemma descending_insertion:
  assumes "sorted_wrt (\<lambda>a b. \<not> sint (snd b) < sint (snd a)) acc"
  shows "sorted_wrt (\<lambda>a b. \<not> sint (snd a) < sint (snd b)) (insertion acc xs)"
  using assms
proof (induction xs arbitrary: acc)
  case Nil
  then show ?case by (simp add: sorted_wrt_rev)
next
  case (Cons x xs)
  then show ?case by (simp add: ascending_place)
qed

lemma insertion_of_sorted:
  assumes "sorted_wrt (\<lambda>a b. \<not> sint (snd a) < sint (snd b)) (rev acc @ xs)"
  shows "insertion acc xs = rev acc @ xs"
  using assms
proof (induction xs arbitrary: acc)
  case Nil
  then show ?case by simp
next
  case (Cons x xs)
  then have "place x acc = x # acc"
    by (intro place_at_front) (auto simp add: sorted_wrt_append)
  with Cons show ?case by simp
qed

lemma set_Sort_Reverse: "set (Sort_Reverse p) = set p"
  by (cases p) (auto simp add: Sort_Reverse_Nil Sort_Reverse_insertion set_insertion)

lemma distinct_Sort_Reverse: "distinct (map fst (Sort_Reverse p)) \<longleftrightarrow> distinct (map fst p)"
  by (cases p) (auto simp add: Sort_Reverse_Nil Sort_Reverse_insertion distinct_insertion)

lemma descending_Sort_Reverse:
  "sorted_wrt (\<lambda>a b. \<not> sint (snd a) < sint (snd b)) (Sort_Reverse p)"
  by (cases p) (auto simp add: Sort_Reverse_Nil Sort_Reverse_insertion descending_insertion)

lemma Sort_Reverse_of_sorted:
  assumes "sorted_wrt (\<lambda>a b. \<not> sint (snd a) < sint (snd b)) p"
  shows "Sort_Reverse p = p"
proof (cases p)
  case Nil
  then show ?thesis by (simp add: Sort_Reverse_Nil)
next
  case (Cons x xs)
  with assms insertion_of_sorted [of "[x]" xs] show ?thesis
    by (simp add: Sort_Reverse_insertion)
qed

text \<open>
  Whatever the order of the iteration, the sorted slice holds the entries of the map,
  each once, and no element has a smaller value than a later one.
\<close>

lemma Sort_Reverse_sorts:
  assumes "ranges_over m ranged"
  shows "is_sortedUploads m (Sort_Reverse ranged)"
proof -
  from assms have d: "distinct (map fst ranged)" and m: "map_of ranged = m"
    by (simp_all add: ranges_over_def)
  from d have d': "distinct (map fst (Sort_Reverse ranged))"
    by (simp add: distinct_Sort_Reverse)
  from d d' have "map_of (Sort_Reverse ranged) = map_of ranged"
    by (simp add: map_of_inject_set set_Sort_Reverse)
  with d' m show ?thesis
    by (simp add: is_sortedUploads_def descending_Sort_Reverse)
qed

text \<open>
  Conversely every slice that holds the entries of the map in such an order is the
  sorted slice for some order of the iteration, namely its own: the order among
  uploads of equal size is as open as the iteration is.
\<close>

lemma sorted_order_is_reached:
  assumes "is_sortedUploads m ps"
  shows "ranges_over m ps \<and> Sort_Reverse ps = ps"
  using assms by (simp add: is_sortedUploads_def ranges_over_def Sort_Reverse_of_sorted)

lemma Sort_Reverse_listed:
  "Sort_Reverse [(''a'', 10), (''b'', 50), (''c'', 30), (''d'', 5)]
     = [(''b'', 50), (''c'', 30), (''a'', 10), (''d'', 5)]"
  by (simp add: Sort_Reverse_def Len_def Swap_def Less_def Reverse_Less_def eval_nat_numeral)

lemma Sort_Reverse_example:
  "Sort_Reverse example_uploads = [(''b'', 50), (''c'', 30), (''a'', 10), (''d'', 5)]"
  by (simp add: example_uploads_def Sort_Reverse_listed)

section \<open>Eviction\<close>


lemma terminate_ok:
  assumes "ds_Terminate (TerminaterDataStore store) (received store) id' = None"
  shows "terminate id' store =
     (None, store\<lparr>received := received store @ [CallTerminate id'],
                  uploads := (uploads store)(id' := None),
                  usedSize := usedSize store - (case uploads store id' of None \<Rightarrow> 0 | Some v \<Rightarrow> v)\<rparr>)"
  using assms by (simp add: terminate_def Let_def)

lemma terminate_failed:
  assumes "ds_Terminate (TerminaterDataStore store) (received store) id' = Some e"
  shows "terminate id' store = (Some e, store\<lparr>received := received store @ [CallTerminate id']\<rparr>)"
  using assms by (simp add: terminate_def Let_def)

lemma is_sortedUploads_tracked:
  assumes "is_sortedUploads m ps" and "p \<in> set ps"
  shows "m (fst p) = Some (snd p)"
  using assms by (auto simp add: is_sortedUploads_def)

lemma is_sortedUploads_listed:
  assumes "is_sortedUploads m ps" and "m k = Some v"
  shows "(k, v) \<in> set ps"
  using assms by (auto simp add: is_sortedUploads_def dest: map_of_SomeD)

lemma sorted_wrt_take_drop:
  assumes "sorted_wrt P xs" and "a \<in> set (take n xs)" and "b \<in> set (drop n xs)"
  shows "P a b"
proof -
  from assms(1) have "sorted_wrt P (take n xs @ drop n xs)" by simp
  with assms(2,3) show ?thesis unfolding sorted_wrt_append by blast
qed

text \<open>
  What the loop does on a slice of distinct tracked ids with their recorded sizes. It
  makes \<open>n\<close> calls to \<open>Terminate\<close>, for the first \<open>n\<close> elements in order, of which the
  first \<open>m\<close> succeeded; after each call but the last the space was still short; on
  success \<open>m = n\<close> and either the slice is used up or there is room now; on failure the
  last call is the one that failed. The books show the \<open>m\<close> terminations.
\<close>

lemma evict_trace:
  assumes "distinct (map fst ps)"
    and "\<forall>p\<in>set ps. uploads store (fst p) = Some (snd p)"
    and "evict ps size' store = (err, store')"
  shows "\<exists>n m. n \<le> length ps \<and> (ps \<noteq> [] \<longrightarrow> 0 < n)
      \<and> received store' = received store @ map (CallTerminate \<circ> fst) (take n ps)
      \<and> (\<forall>j. 0 < j \<and> j < n \<longrightarrow>
            \<not> sint (usedSize store - sum_list (map snd (take j ps)) + size') \<le> sint (StoreSize store))
      \<and> (err = None \<longrightarrow> m = n \<and> (n = length ps \<or> enough_space store' size'))
      \<and> (\<forall>e. err = Some e \<longrightarrow> n = Suc m
            \<and> ds_Terminate (TerminaterDataStore store)
                 (received store @ map (CallTerminate \<circ> fst) (take m ps)) (fst (ps ! m)) = Some e)
      \<and> usedSize store' = usedSize store - sum_list (map snd (take m ps))
      \<and> uploads store' = (\<lambda>k. if k \<in> fst ` set (take m ps) then None else uploads store k)
      \<and> StoreSize store' = StoreSize store
      \<and> TerminaterDataStore store' = TerminaterDataStore store"
  using assms
proof (induction ps arbitrary: store)
  case Nil
  then show ?case by auto
next
  case (Cons k ks)
  let ?D = "TerminaterDataStore store"
  show ?case
  proof (cases "ds_Terminate ?D (received store) (fst k)")
    case (Some e)
    with Cons.prems(3) terminate_failed [OF Some] have
      "err = Some e" "store' = store\<lparr>received := received store @ [CallTerminate (fst k)]\<rparr>"
      by auto
    with Some show ?thesis
      by - (rule exI [of _ "Suc 0"], rule exI [of _ 0], auto)
  next
    case None
    define s0 where "s0 = store\<lparr>received := received store @ [CallTerminate (fst k)],
                  uploads := (uploads store)(fst k := None),
                  usedSize := usedSize store - snd k\<rparr>"
    from Cons.prems(2) have tracked: "uploads store (fst k) = Some (snd k)" by simp
    with terminate_ok [OF None] have t: "terminate (fst k) store = (None, s0)"
      by (simp add: s0_def)
    show ?thesis
    proof (cases "enough_space s0 size'")
      case True
      with Cons.prems(3) t have "err = None" "store' = s0" by auto
      then show ?thesis using True
        by - (rule exI [of _ "Suc 0"], rule exI [of _ "Suc 0"], auto simp add: s0_def)
    next
      case False
      with Cons.prems(3) t have ev: "evict ks size' s0 = (err, store')" by simp
      from Cons.prems(1) have d: "distinct (map fst ks)" and nk: "fst k \<notin> fst ` set ks" by auto
      have tr: "\<forall>p\<in>set ks. uploads s0 (fst p) = Some (snd p)"
      proof
        fix p assume p: "p \<in> set ks"
        with nk have "fst p \<noteq> fst k" by (metis imageI)
        with Cons.prems(2) p show "uploads s0 (fst p) = Some (snd p)"
          by (simp add: s0_def)
      qed
      from Cons.IH [OF d tr ev] obtain n m where
        n: "n \<le> length ks"
        and rc: "received store' = received s0 @ map (CallTerminate \<circ> fst) (take n ks)"
        and chk: "\<forall>j. 0 < j \<and> j < n \<longrightarrow>
            \<not> sint (usedSize s0 - sum_list (map snd (take j ks)) + size') \<le> sint (StoreSize s0)"
        and ok: "err = None \<longrightarrow> m = n \<and> (n = length ks \<or> enough_space store' size')"
        and bad: "\<forall>e. err = Some e \<longrightarrow> n = Suc m
            \<and> ds_Terminate (TerminaterDataStore s0)
                 (received s0 @ map (CallTerminate \<circ> fst) (take m ks)) (fst (ks ! m)) = Some e"
        and us: "usedSize store' = usedSize s0 - sum_list (map snd (take m ks))"
        and up: "uploads store' = (\<lambda>k. if k \<in> fst ` set (take m ks) then None else uploads s0 k)"
        and ss: "StoreSize store' = StoreSize s0"
        and ds: "TerminaterDataStore store' = TerminaterDataStore s0"
        by blast
      have chk': "\<not> sint (usedSize store - sum_list (map snd (take j (k # ks))) + size')
                      \<le> sint (StoreSize store)" if "0 < j" "j < Suc n" for j
      proof (cases j)
        case 0
        with that show ?thesis by simp
      next
        case (Suc i)
        show ?thesis
        proof (cases "i = 0")
          case True
          with Suc False show ?thesis by (simp add: s0_def)
        next
          case F: False
          with Suc that chk have
            "\<not> sint (usedSize s0 - sum_list (map snd (take i ks)) + size') \<le> sint (StoreSize s0)"
            by simp
          then show ?thesis using Suc by (simp add: s0_def diff_diff_eq)
        qed
      qed
      have "Suc n \<le> length (k # ks)" using n by simp
      moreover have "received store' = received store @ map (CallTerminate \<circ> fst) (take (Suc n) (k # ks))"
        using rc by (simp add: s0_def)
      moreover have "err = None \<longrightarrow> Suc m = Suc n \<and> (Suc n = length (k # ks) \<or> enough_space store' size')"
        using ok by simp
      moreover have "\<forall>e. err = Some e \<longrightarrow> Suc n = Suc (Suc m)
            \<and> ds_Terminate ?D
                 (received store @ map (CallTerminate \<circ> fst) (take (Suc m) (k # ks)))
                 (fst ((k # ks) ! Suc m)) = Some e"
        using bad by (simp add: s0_def)
      moreover have "usedSize store' = usedSize store - sum_list (map snd (take (Suc m) (k # ks)))"
        using us by (simp add: s0_def diff_diff_eq)
      moreover have "uploads store' =
          (\<lambda>x. if x \<in> fst ` set (take (Suc m) (k # ks)) then None else uploads store x)"
        using up by (auto simp add: s0_def fun_eq_iff)
      moreover have "StoreSize store' = StoreSize store" "TerminaterDataStore store' = ?D"
        using ss ds by (simp_all add: s0_def)
      ultimately show ?thesis using chk'
        by - (rule exI [of _ "Suc n"], rule exI [of _ "Suc m"], blast)
    qed
  qed
qed

text \<open>
  Handed a slice that is in such an order already, \<open>ensureSpace\<close> walks through it as
  it is.
\<close>

lemma ensureSpace_on_sorted:
  assumes "is_sortedUploads (uploads store) ps"
  shows "ensureSpace ps size' store =
     (if enough_space store size' then (None, store) else evict ps size' store)"
  using sorted_order_is_reached [OF assms] by (simp add: ensureSpace_def Let_def)

text \<open>
  The loop on a failing call. If the first \<open>m\<close> calls are answered \<open>nil\<close>, the space is
  still short after each of them, and the next call is answered with an error, then the
  loop returns that error at once: the failing call is the last one made, and the books
  show the \<open>m\<close> terminations.
\<close>

lemma evict_aborts:
  assumes "distinct (map fst ps)"
    and "\<forall>p\<in>set ps. uploads store (fst p) = Some (snd p)"
    and "m < length ps"
    and "\<forall>j<m. ds_Terminate (TerminaterDataStore store)
            (received store @ map (CallTerminate \<circ> fst) (take j ps)) (fst (ps ! j)) = None"
    and "\<forall>j. 0 < j \<and> j \<le> m \<longrightarrow>
            \<not> sint (usedSize store - sum_list (map snd (take j ps)) + size') \<le> sint (StoreSize store)"
    and "ds_Terminate (TerminaterDataStore store)
            (received store @ map (CallTerminate \<circ> fst) (take m ps)) (fst (ps ! m)) = Some e"
  shows "evict ps size' store =
     (Some e, store\<lparr>received := received store @ map (CallTerminate \<circ> fst) (take (Suc m) ps),
                    uploads := (\<lambda>k. if k \<in> fst ` set (take m ps) then None else uploads store k),
                    usedSize := usedSize store - sum_list (map snd (take m ps))\<rparr>)"
  using assms
proof (induction ps arbitrary: store m)
  case Nil
  then show ?case by simp
next
  case (Cons k ks)
  let ?D = "TerminaterDataStore store"
  show ?case
  proof (cases m)
    case 0
    with Cons.prems(6) have "ds_Terminate ?D (received store) (fst k) = Some e" by simp
    from terminate_failed [OF this] 0 show ?thesis by simp
  next
    case (Suc m')
    define s0 where "s0 = store\<lparr>received := received store @ [CallTerminate (fst k)],
                  uploads := (uploads store)(fst k := None),
                  usedSize := usedSize store - snd k\<rparr>"
    from Cons.prems(4) Suc have "ds_Terminate ?D (received store) (fst k) = None"
      by (auto dest: spec [of _ 0])
    moreover from Cons.prems(2) have "uploads store (fst k) = Some (snd k)" by simp
    ultimately have t: "terminate (fst k) store = (None, s0)"
      using terminate_ok [of store "fst k"] by (simp add: s0_def)
    from Cons.prems(5) Suc have "\<not> enough_space s0 size'"
      by (auto simp add: s0_def dest: spec [of _ "Suc 0"])
    with t have step: "evict (k # ks) size' store = evict ks size' s0" by simp
    from Cons.prems(1) have d: "distinct (map fst ks)" and nk: "fst k \<notin> fst ` set ks" by auto
    have tr: "\<forall>p\<in>set ks. uploads s0 (fst p) = Some (snd p)"
    proof
      fix p assume p: "p \<in> set ks"
      with nk have "fst p \<noteq> fst k" by (metis imageI)
      with Cons.prems(2) p show "uploads s0 (fst p) = Some (snd p)"
        by (simp add: s0_def)
    qed
    from Cons.prems(3) Suc have m': "m' < length ks" by simp
    have ok: "\<forall>j<m'. ds_Terminate (TerminaterDataStore s0)
            (received s0 @ map (CallTerminate \<circ> fst) (take j ks)) (fst (ks ! j)) = None"
    proof (intro allI impI)
      fix j assume "j < m'"
      with Suc have "Suc j < m" by simp
      with Cons.prems(4) have "ds_Terminate ?D
            (received store @ map (CallTerminate \<circ> fst) (take (Suc j) (k # ks)))
            (fst ((k # ks) ! Suc j)) = None"
        by blast
      then show "ds_Terminate (TerminaterDataStore s0)
            (received s0 @ map (CallTerminate \<circ> fst) (take j ks)) (fst (ks ! j)) = None"
        by (simp add: s0_def)
    qed
    have short: "\<forall>j. 0 < j \<and> j \<le> m' \<longrightarrow>
            \<not> sint (usedSize s0 - sum_list (map snd (take j ks)) + size') \<le> sint (StoreSize s0)"
    proof (intro allI impI)
      fix j assume "0 < j \<and> j \<le> m'"
      with Suc have "0 < Suc j \<and> Suc j \<le> m" by simp
      with Cons.prems(5) have
        "\<not> sint (usedSize store - sum_list (map snd (take (Suc j) (k # ks))) + size')
            \<le> sint (StoreSize store)"
        by blast
      then show "\<not> sint (usedSize s0 - sum_list (map snd (take j ks)) + size')
            \<le> sint (StoreSize s0)"
        by (simp add: s0_def diff_diff_eq)
    qed
    have bad: "ds_Terminate (TerminaterDataStore s0)
            (received s0 @ map (CallTerminate \<circ> fst) (take m' ks)) (fst (ks ! m')) = Some e"
      using Cons.prems(6) Suc by (simp add: s0_def comp_def)
    have f1: "(\<lambda>x. if x \<in> fst ` set (take m' ks) then None else uploads s0 x)
        = (\<lambda>x. if x \<in> fst ` set (take m (k # ks)) then None else uploads store x)"
      using Suc by (auto simp add: s0_def fun_eq_iff)
    have f2: "usedSize s0 - sum_list (map snd (take m' ks))
        = usedSize store - sum_list (map snd (take m (k # ks)))"
      using Suc by (simp add: s0_def diff_diff_eq)
    have f3: "received s0 @ map (CallTerminate \<circ> fst) (take (Suc m') ks)
        = received store @ map (CallTerminate \<circ> fst) (take (Suc m) (k # ks))"
      using Suc by (simp add: s0_def)
    have "evict ks size' s0 =
       (Some e, s0\<lparr>received := received s0 @ map (CallTerminate \<circ> fst) (take (Suc m') ks),
                    uploads := (\<lambda>x. if x \<in> fst ` set (take m' ks) then None else uploads s0 x),
                    usedSize := usedSize s0 - sum_list (map snd (take m' ks))\<rparr>)"
      by (rule Cons.IH [OF d tr m' ok short bad])
    then have "evict ks size' s0 =
       (Some e, s0\<lparr>received := received store @ map (CallTerminate \<circ> fst) (take (Suc m) (k # ks)),
                    uploads := (\<lambda>x. if x \<in> fst ` set (take m (k # ks)) then None
                                     else uploads store x),
                    usedSize := usedSize store - sum_list (map snd (take m (k # ks)))\<rparr>)"
      by (simp only: f1 f2 f3)
    also have "s0\<lparr>received := received store @ map (CallTerminate \<circ> fst) (take (Suc m) (k # ks)),
                    uploads := (\<lambda>x. if x \<in> fst ` set (take m (k # ks)) then None
                                     else uploads store x),
                    usedSize := usedSize store - sum_list (map snd (take m (k # ks)))\<rparr>
        = store\<lparr>received := received store @ map (CallTerminate \<circ> fst) (take (Suc m) (k # ks)),
                    uploads := (\<lambda>x. if x \<in> fst ` set (take m (k # ks)) then None
                                     else uploads store x),
                    usedSize := usedSize store - sum_list (map snd (take m (k # ks)))\<rparr>"
      unfolding s0_def by simp
    finally show ?thesis
      using step by (simp only:)
  qed
qed

text \<open>The failing case of \<open>ensureSpace\<close>, read off the trace.\<close>

lemma ensureSpace_failed_trace:
  assumes valid: "ranges_over (uploads store) ranged"
    and failed: "ensureSpace ranged size' store = (Some e, store1)"
  shows "\<exists>m<length (Sort_Reverse ranged).
          ds_Terminate (TerminaterDataStore store)
            (received store @ map (CallTerminate \<circ> fst) (take m (Sort_Reverse ranged)))
            (fst (Sort_Reverse ranged ! m)) = Some e
        \<and> received store1 =
            received store @ map (CallTerminate \<circ> fst) (take (Suc m) (Sort_Reverse ranged))
        \<and> usedSize store1 = usedSize store - sum_list (map snd (take m (Sort_Reverse ranged)))
        \<and> uploads store1 =
            (\<lambda>k. if k \<in> fst ` set (take m (Sort_Reverse ranged)) then None else uploads store k)
        \<and> StoreSize store1 = StoreSize store
        \<and> TerminaterDataStore store1 = TerminaterDataStore store"
proof -
  let ?ps = "Sort_Reverse ranged"
  from valid have sorted: "is_sortedUploads (uploads store) ?ps"
    by (rule Sort_Reverse_sorts)
  then have d: "distinct (map fst ?ps)"
    by (simp add: is_sortedUploads_def)
  from sorted have tr: "\<forall>p\<in>set ?ps. uploads store (fst p) = Some (snd p)"
    by (simp add: is_sortedUploads_tracked)
  from failed have ev: "evict ?ps size' store = (Some e, store1)"
    by (simp add: ensureSpace_def Let_def split: if_splits)
  from evict_trace [OF d tr ev] obtain n m where
    n: "n \<le> length ?ps" "n = Suc m"
    and bad: "ds_Terminate (TerminaterDataStore store)
            (received store @ map (CallTerminate \<circ> fst) (take m ?ps))
            (fst (?ps ! m)) = Some e"
    and rc: "received store1 = received store @ map (CallTerminate \<circ> fst) (take n ?ps)"
    and us: "usedSize store1 = usedSize store - sum_list (map snd (take m ?ps))"
    and up: "uploads store1 =
            (\<lambda>k. if k \<in> fst ` set (take m ?ps) then None else uploads store k)"
    and same: "StoreSize store1 = StoreSize store"
      "TerminaterDataStore store1 = TerminaterDataStore store"
    by blast
  from n have m: "m < length ?ps" by simp
  from m bad rc n(2) us up same show ?thesis
    by - (rule exI [of _ m], simp)
qed

text \<open>
  C2. Suppose \<open>NewUpload\<close> finds the space short. \<open>ensureSpace\<close> then copies the tracked
  uploads into a slice, in whatever order the iteration of the map yields them, sorts
  it with \<open>sort.Sort(sort.Reverse(..))\<close> and walks through it. The calls made to the
  wrapped store are \<open>Terminate\<close> calls for the first \<open>n\<close> elements of the sorted slice,
  in its order, followed by the creation when the loop ended without error. The
  uploads terminated are tracked ones with their recorded sizes, and their sizes never
  increase from one termination to the next, whatever the order of the iteration was.
  At least one upload is terminated if any is tracked. After each of these
  terminations but the last the check was made and the space was still short. When
  the loop ends without error, it ended because there is room now or because the
  slice was used up; the books show exactly the \<open>n\<close> terminations, and no upload that
  is still tracked is larger than one that was terminated.
\<close>

theorem ensureSpace_evicts_largest_first:
  assumes valid: "ranges_over (uploads store) ranged"
    and sorted: "sortedUploads = Sort_Reverse ranged"
    and short: "\<not> enough_space store (Size info)"
    and run: "ensureSpace ranged (Size info) store = (err, store')"
  shows "\<exists>n\<le>length sortedUploads.
      received store' = received store @ map (CallTerminate \<circ> fst) (take n sortedUploads)
    \<and> received (snd (NewUpload ranged info store))
        = received store' @ (if err = None then [CallNewUpload info] else [])
    \<and> (\<forall>p\<in>set (take n sortedUploads). uploads store (fst p) = Some (snd p))
    \<and> sorted_wrt (\<lambda>a b. sint (snd b) \<le> sint (snd a)) (take n sortedUploads)
    \<and> (uploads store \<noteq> Map.empty \<longrightarrow> 0 < n)
    \<and> (\<forall>j. 0 < j \<and> j < n \<longrightarrow>
          \<not> sint (usedSize store - sum_list (map snd (take j sortedUploads)) + Size info)
              \<le> sint (StoreSize store))
    \<and> (err = None \<longrightarrow>
          (n = length sortedUploads \<or> enough_space store' (Size info))
        \<and> usedSize store' = usedSize store - sum_list (map snd (take n sortedUploads))
        \<and> uploads store' =
            (\<lambda>k. if k \<in> fst ` set (take n sortedUploads) then None else uploads store k)
        \<and> (\<forall>k v. uploads store' k = Some v \<longrightarrow>
              (\<forall>p\<in>set (take n sortedUploads). sint v \<le> sint (snd p))))"
proof -
  from valid sorted have listing: "is_sortedUploads (uploads store) sortedUploads"
    by (simp add: Sort_Reverse_sorts)
  then have d: "distinct (map fst sortedUploads)"
    and srt: "sorted_wrt (\<lambda>a b. \<not> sint (snd a) < sint (snd b)) sortedUploads"
    and all: "map_of sortedUploads = uploads store"
    by (simp_all add: is_sortedUploads_def)
  from listing have tr: "\<forall>p\<in>set sortedUploads. uploads store (fst p) = Some (snd p)"
    by (simp add: is_sortedUploads_tracked)
  from short run sorted have ev: "evict sortedUploads (Size info) store = (err, store')"
    by (simp add: ensureSpace_def Let_def)
  from evict_trace [OF d tr ev] obtain n m where
    n: "n \<le> length sortedUploads" "sortedUploads \<noteq> [] \<longrightarrow> 0 < n"
    and rc: "received store' = received store @ map (CallTerminate \<circ> fst) (take n sortedUploads)"
    and chk: "\<forall>j. 0 < j \<and> j < n \<longrightarrow>
          \<not> sint (usedSize store - sum_list (map snd (take j sortedUploads)) + Size info)
              \<le> sint (StoreSize store)"
    and ok: "err = None \<longrightarrow> m = n \<and> (n = length sortedUploads \<or> enough_space store' (Size info))"
    and us: "usedSize store' = usedSize store - sum_list (map snd (take m sortedUploads))"
    and up: "uploads store' =
            (\<lambda>k. if k \<in> fst ` set (take m sortedUploads) then None else uploads store k)"
    by blast
  have some: "uploads store \<noteq> Map.empty \<longrightarrow> 0 < n"
  proof
    assume "uploads store \<noteq> Map.empty"
    with all have "sortedUploads \<noteq> []" by auto
    with n(2) show "0 < n" by simp
  qed
  have after: "received (snd (NewUpload ranged info store))
        = received store' @ (if err = None then [CallNewUpload info] else [])"
    using run by (auto simp add: NewUpload_def Let_def split: prod.splits option.splits)
  have srt': "sorted_wrt (\<lambda>a b. sint (snd b) \<le> sint (snd a)) sortedUploads"
    using srt by (simp add: not_less)
  have ordered: "sorted_wrt (\<lambda>a b. sint (snd b) \<le> sint (snd a)) (take n sortedUploads)"
    using srt' by (rule sorted_wrt_take)
  have tracked: "\<forall>p\<in>set (take n sortedUploads). uploads store (fst p) = Some (snd p)"
    using tr by (auto dest: in_set_takeD)
  have rest: "sint v \<le> sint (snd p)"
    if "err = None" "uploads store' k = Some v" "p \<in> set (take n sortedUploads)" for k v p
  proof -
    from that(1) ok have mn: "m = n" by simp
    from that(2) up mn have out: "k \<notin> fst ` set (take n sortedUploads)"
      and "uploads store k = Some v"
      by (auto split: if_splits)
    with listing have "(k, v) \<in> set sortedUploads" by (simp add: is_sortedUploads_listed)
    then have "(k, v) \<in> set (take n sortedUploads) \<union> set (drop n sortedUploads)"
      by (simp only: set_append [symmetric] append_take_drop_id)
    with out have "(k, v) \<in> set (drop n sortedUploads)" by force
    with sorted_wrt_take_drop [OF srt' that(3)] show ?thesis by force
  qed
  have "received store' = received store @ map (CallTerminate \<circ> fst) (take n sortedUploads)
    \<and> received (snd (NewUpload ranged info store))
        = received store' @ (if err = None then [CallNewUpload info] else [])
    \<and> (\<forall>p\<in>set (take n sortedUploads). uploads store (fst p) = Some (snd p))
    \<and> sorted_wrt (\<lambda>a b. sint (snd b) \<le> sint (snd a)) (take n sortedUploads)
    \<and> (uploads store \<noteq> Map.empty \<longrightarrow> 0 < n)
    \<and> (\<forall>j. 0 < j \<and> j < n \<longrightarrow>
          \<not> sint (usedSize store - sum_list (map snd (take j sortedUploads)) + Size info)
              \<le> sint (StoreSize store))
    \<and> (err = None \<longrightarrow>
          (n = length sortedUploads \<or> enough_space store' (Size info))
        \<and> usedSize store' = usedSize store - sum_list (map snd (take n sortedUploads))
        \<and> uploads store' =
            (\<lambda>k. if k \<in> fst ` set (take n sortedUploads) then None else uploads store k)
        \<and> (\<forall>k v. uploads store' k = Some v \<longrightarrow>
              (\<forall>p\<in>set (take n sortedUploads). sint v \<le> sint (snd p))))"
    using some rc after chk ok us up ordered tracked rest by auto
  with n(1) show ?thesis by blast
qed

theorem ensureSpace_evicts_largest_first_witness:
  "ranges_over (uploads (example_store reliable_store)) example_uploads
   \<and> Sort_Reverse example_uploads = [(''b'', 50), (''c'', 30), (''a'', 10), (''d'', 5)]
   \<and> \<not> enough_space (example_store reliable_store) (Size \<lparr>Size = 35\<rparr>)
   \<and> fst (ensureSpace example_uploads (Size \<lparr>Size = 35\<rparr>) (example_store reliable_store)) = None
   \<and> received (snd (ensureSpace example_uploads (Size \<lparr>Size = 35\<rparr>) (example_store reliable_store)))
       = [CallTerminate ''b'', CallTerminate ''c'', CallTerminate ''a'']
   \<and> usedSize (snd (ensureSpace example_uploads (Size \<lparr>Size = 35\<rparr>) (example_store reliable_store)))
       = 5
   \<and> dom (uploads (snd (ensureSpace example_uploads (Size \<lparr>Size = 35\<rparr>)
                          (example_store reliable_store)))) = {''d''}
   \<and> (\<exists>n\<le>length (Sort_Reverse example_uploads).
         received (snd (ensureSpace example_uploads (Size \<lparr>Size = 35\<rparr>)
                          (example_store reliable_store)))
           = received (example_store reliable_store)
             @ map (CallTerminate \<circ> fst) (take n (Sort_Reverse example_uploads))
       \<and> sorted_wrt (\<lambda>a b. sint (snd b) \<le> sint (snd a)) (take n (Sort_Reverse example_uploads)))"
proof -
  let ?s = "example_store reliable_store"
  let ?info = "\<lparr>Size = 35\<rparr>"
  let ?r = "ensureSpace example_uploads (Size ?info) ?s"
  have valid: "ranges_over (uploads ?s) example_uploads"
    by (simp add: ranges_over_def example_store_def example_uploads_def)
  have short: "\<not> enough_space ?s (Size ?info)"
    by (simp add: example_store_def)
  have run: "?r = (fst ?r, snd ?r)"
    by simp
  have outcome: "fst ?r = None"
    "received (snd ?r) = [CallTerminate ''b'', CallTerminate ''c'', CallTerminate ''a'']"
    "usedSize (snd ?r) = 5"
    by (simp_all add: ensureSpace_def Sort_Reverse_listed example_store_def example_uploads_def
        reliable_store_def terminate_def Let_def)
  have kept: "dom (uploads (snd ?r)) = {''d''}"
    by (auto simp add: ensureSpace_def Sort_Reverse_listed example_store_def example_uploads_def
        reliable_store_def terminate_def Let_def split: if_splits)
  from ensureSpace_evicts_largest_first [OF valid refl short run]
  have "\<exists>n\<le>length (Sort_Reverse example_uploads).
         received (snd ?r) = received ?s
           @ map (CallTerminate \<circ> fst) (take n (Sort_Reverse example_uploads))
       \<and> sorted_wrt (\<lambda>a b. sint (snd b) \<le> sint (snd a)) (take n (Sort_Reverse example_uploads))"
    by blast
  with valid short outcome kept Sort_Reverse_example show ?thesis
    by (simp only: simp_thms)
qed

text \<open>
  C3. If, when \<open>ensureSpace\<close> returns, no upload is tracked any more, then it has
  returned \<open>nil\<close>, whether or not the new upload fits: running out of uploads to evict
  is not an error. \<open>NewUpload\<close> then asks the wrapped store to create the upload, and
  when that succeeds it returns the new id, tracks it as the only upload and adds its
  size to \<open>usedSize\<close>. The case of no tracked uploads at all is included (the slice is
  empty and the store is passed through unchanged).
\<close>

theorem NewUpload_best_effort:
  assumes valid: "ranges_over (uploads store) ranged"
    and run: "ensureSpace ranged (Size info) store = (err, store1)"
    and exhausted: "uploads store1 = Map.empty"
  shows "err = None
    \<and> received (snd (NewUpload ranged info store)) = received store1 @ [CallNewUpload info]
    \<and> (\<forall>id'. ds_NewUpload (TerminaterDataStore store1) (received store1) info = (id', None) \<longrightarrow>
          fst (NewUpload ranged info store) = (id', None)
        \<and> uploads (snd (NewUpload ranged info store)) = [id' \<mapsto> Size info]
        \<and> usedSize (snd (NewUpload ranged info store)) = usedSize store1 + Size info)"
proof -
  let ?ps = "Sort_Reverse ranged"
  from valid have sorted: "is_sortedUploads (uploads store) ?ps"
    by (rule Sort_Reverse_sorts)
  have ok: "err = None"
  proof (cases err)
    case None
    then show ?thesis .
  next
    case (Some e)
    from ensureSpace_failed_trace [OF valid run [unfolded Some]]
    obtain m where m: "m < length ?ps"
      and up: "uploads store1 =
            (\<lambda>k. if k \<in> fst ` set (take m ?ps) then None else uploads store k)"
      by blast
    let ?p = "?ps ! m"
    from m have mem: "?p \<in> set ?ps" by simp
    with sorted have tracked: "uploads store (fst ?p) = Some (snd ?p)"
      by (simp add: is_sortedUploads_tracked)
    from sorted have "distinct (map fst ?ps)" by (simp add: is_sortedUploads_def)
    then have "distinct (map fst (take m ?ps) @ map fst (drop m ?ps))"
      by (simp only: map_append [symmetric] append_take_drop_id)
    moreover from m have "fst ?p \<in> set (map fst (drop m ?ps))"
      by (metis Cons_nth_drop_Suc list.set_intros(1) list.simps(9))
    ultimately have "fst ?p \<notin> fst ` set (take m ?ps)" by auto
    with up tracked have "uploads store1 (fst ?p) = Some (snd ?p)" by simp
    with exhausted show ?thesis by simp
  qed
  with run exhausted show ?thesis
    by (auto simp add: NewUpload_def Let_def split: prod.splits option.splits)
qed

theorem NewUpload_best_effort_witness:
  "ranges_over (uploads (New 5 reliable_store)) []
   \<and> ensureSpace [] 100 (New 5 reliable_store) = (None, New 5 reliable_store)
   \<and> uploads (New 5 reliable_store) = Map.empty
   \<and> \<not> enough_space (New 5 reliable_store) 100
   \<and> fst (NewUpload [] \<lparr>Size = 100\<rparr> (New 5 reliable_store)) = (''u'', None)
   \<and> uploads (snd (NewUpload [] \<lparr>Size = 100\<rparr> (New 5 reliable_store))) = [''u'' \<mapsto> 100]
   \<and> usedSize (snd (NewUpload [] \<lparr>Size = 100\<rparr> (New 5 reliable_store))) = 100"
proof -
  let ?s = "New 5 reliable_store"
  let ?info = "\<lparr>Size = 100\<rparr>"
  have valid: "ranges_over (uploads ?s) []"
    by (simp add: ranges_over_def New_def)
  have run: "ensureSpace [] (Size ?info) ?s = (None, ?s)"
    by (simp add: ensureSpace_def Sort_Reverse_Nil)
  have exhausted: "uploads ?s = Map.empty"
    by (simp add: New_def)
  have short: "\<not> enough_space ?s 100"
    by (simp add: New_def)
  have created: "ds_NewUpload (TerminaterDataStore ?s) (received ?s) ?info = (''u'', None)"
    by (simp add: New_def reliable_store_def fresh_id_def)
  have used: "usedSize ?s + Size ?info = 100"
    by (simp add: New_def)
  from NewUpload_best_effort [OF valid run exhausted] created
  have "fst (NewUpload [] ?info ?s) = (''u'', None)
      \<and> uploads (snd (NewUpload [] ?info ?s)) = [''u'' \<mapsto> Size ?info]
      \<and> usedSize (snd (NewUpload [] ?info ?s)) = usedSize ?s + Size ?info"
    by blast
  with valid run exhausted short used show ?thesis
    by simp
qed

text \<open>
  C4. Suppose the space is short and, in the loop over the sorted slice, a \<open>Terminate\<close>
  call to the wrapped store fails: the first \<open>m\<close> calls were answered \<open>nil\<close>, the space
  was still short after each of them (so the loop went on to the next upload), and the
  call for the next upload is answered with the error \<open>e\<close>. Then \<open>NewUpload\<close> returns
  the empty id and \<open>e\<close>. The wrapped store has received those \<open>m + 1\<close> \<open>Terminate\<close>
  calls and nothing after them, so no further termination and no creation was asked
  for. The bookkeeping shows the \<open>m\<close> terminations that succeeded (those uploads are
  gone from the map, and their sizes from \<open>usedSize\<close>); everything else in the store
  is as it was.
\<close>

theorem NewUpload_aborts_on_failed_eviction:
  assumes valid: "ranges_over (uploads store) ranged"
    and sorted: "sortedUploads = Sort_Reverse ranged"
    and short: "\<not> enough_space store (Size info)"
    and reached: "m < length sortedUploads"
    and succeeded: "\<forall>j<m. ds_Terminate (TerminaterDataStore store)
            (received store @ map (CallTerminate \<circ> fst) (take j sortedUploads))
            (fst (sortedUploads ! j)) = None"
    and still_short: "\<forall>j. 0 < j \<and> j \<le> m \<longrightarrow>
            \<not> sint (usedSize store - sum_list (map snd (take j sortedUploads)) + Size info)
                \<le> sint (StoreSize store)"
    and failed: "ds_Terminate (TerminaterDataStore store)
            (received store @ map (CallTerminate \<circ> fst) (take m sortedUploads))
            (fst (sortedUploads ! m)) = Some e"
  shows "NewUpload ranged info store =
     (('''', Some e),
      store\<lparr>received := received store @ map (CallTerminate \<circ> fst) (take (Suc m) sortedUploads),
            uploads := (\<lambda>k. if k \<in> fst ` set (take m sortedUploads) then None
                             else uploads store k),
            usedSize := usedSize store - sum_list (map snd (take m sortedUploads))\<rparr>)"
proof -
  from valid sorted have listing: "is_sortedUploads (uploads store) sortedUploads"
    by (simp add: Sort_Reverse_sorts)
  then have d: "distinct (map fst sortedUploads)"
    by (simp add: is_sortedUploads_def)
  from listing have tr: "\<forall>p\<in>set sortedUploads. uploads store (fst p) = Some (snd p)"
    by (simp add: is_sortedUploads_tracked)
  from short sorted have "ensureSpace ranged (Size info) store
      = evict sortedUploads (Size info) store"
    by (simp add: ensureSpace_def Let_def)
  with evict_aborts [OF d tr reached succeeded still_short failed] show ?thesis
    by (simp add: NewUpload_def)
qed

theorem NewUpload_aborts_on_failed_eviction_witness:
  "ranges_over (uploads (example_store stubborn_store)) example_uploads
   \<and> Sort_Reverse example_uploads = [(''b'', 50), (''c'', 30), (''a'', 10), (''d'', 5)]
   \<and> \<not> enough_space (example_store stubborn_store) (Size \<lparr>Size = 35\<rparr>)
   \<and> ds_Terminate stubborn_store [] ''b'' = None
   \<and> \<not> sint (95 - 50 + 35 :: int64) \<le> sint (40 :: int64)
   \<and> ds_Terminate stubborn_store [CallTerminate ''b''] ''c'' = Some (ErrOther ''busy'')
   \<and> fst (NewUpload example_uploads \<lparr>Size = 35\<rparr> (example_store stubborn_store))
       = ('''', Some (ErrOther ''busy''))
   \<and> received (snd (NewUpload example_uploads \<lparr>Size = 35\<rparr> (example_store stubborn_store)))
       = [CallTerminate ''b'', CallTerminate ''c'']
   \<and> usedSize (snd (NewUpload example_uploads \<lparr>Size = 35\<rparr> (example_store stubborn_store))) = 45
   \<and> dom (uploads (snd (NewUpload example_uploads \<lparr>Size = 35\<rparr> (example_store stubborn_store))))
       = {''a'', ''c'', ''d''}"
proof -
  let ?s = "example_store stubborn_store"
  let ?info = "\<lparr>Size = 35\<rparr>"
  let ?ps = "[(''b'', 50), (''c'', 30), (''a'', 10), (''d'', 5 :: int64)]"
  have valid: "ranges_over (uploads ?s) example_uploads"
    by (simp add: ranges_over_def example_store_def example_uploads_def)
  have sorted: "?ps = Sort_Reverse example_uploads"
    by (simp add: Sort_Reverse_example)
  have short: "\<not> enough_space ?s (Size ?info)"
    by (simp add: example_store_def)
  have reached: "Suc 0 < length ?ps"
    by simp
  have first: "ds_Terminate stubborn_store [] ''b'' = None"
    by (simp add: stubborn_store_def)
  have second: "ds_Terminate stubborn_store [CallTerminate ''b''] ''c'' = Some (ErrOther ''busy'')"
    by (simp add: stubborn_store_def)
  have after_first: "\<not> sint (95 - 50 + 35 :: int64) \<le> sint (40 :: int64)"
    by simp
  have succeeded: "\<forall>j<Suc 0. ds_Terminate (TerminaterDataStore ?s)
            (received ?s @ map (CallTerminate \<circ> fst) (take j ?ps)) (fst (?ps ! j)) = None"
    using first by (simp add: example_store_def)
  have still_short: "\<forall>j. 0 < j \<and> j \<le> Suc 0 \<longrightarrow>
            \<not> sint (usedSize ?s - sum_list (map snd (take j ?ps)) + Size ?info)
                \<le> sint (StoreSize ?s)"
  proof (intro allI impI)
    fix j :: nat
    assume "0 < j \<and> j \<le> Suc 0"
    then have "j = Suc 0" by simp
    then show "\<not> sint (usedSize ?s - sum_list (map snd (take j ?ps)) + Size ?info)
                \<le> sint (StoreSize ?s)"
      by (simp add: example_store_def)
  qed
  have failed: "ds_Terminate (TerminaterDataStore ?s)
            (received ?s @ map (CallTerminate \<circ> fst) (take (Suc 0) ?ps))
            (fst (?ps ! Suc 0)) = Some (ErrOther ''busy'')"
    using second by (simp add: example_store_def)
  from NewUpload_aborts_on_failed_eviction
    [OF valid sorted short reached succeeded still_short failed]
  have result: "NewUpload example_uploads ?info ?s =
     (('''', Some (ErrOther ''busy'')),
      ?s\<lparr>received := received ?s @ map (CallTerminate \<circ> fst) (take (Suc (Suc 0)) ?ps),
          uploads := (\<lambda>k. if k \<in> fst ` set (take (Suc 0) ?ps) then None else uploads ?s k),
          usedSize := usedSize ?s - sum_list (map snd (take (Suc 0) ?ps))\<rparr>)"
    .
  have "fst (NewUpload example_uploads ?info ?s) = ('''', Some (ErrOther ''busy''))"
    "received (snd (NewUpload example_uploads ?info ?s)) = [CallTerminate ''b'', CallTerminate ''c'']"
    "usedSize (snd (NewUpload example_uploads ?info ?s)) = 45"
    unfolding result by (simp_all add: example_store_def)
  moreover have "dom (uploads (snd (NewUpload example_uploads ?info ?s))) = {''a'', ''c'', ''d''}"
    unfolding result
    by (auto simp add: example_store_def example_uploads_def split: if_splits)
  ultimately show ?thesis
    using valid short first second after_first Sort_Reverse_example
    by (simp only: simp_thms)
qed

text \<open>
  C6. \<open>Terminate\<close> for an id that the bookkeeping does not hold, accepted by the wrapped
  store, returns \<open>nil\<close> and leaves \<open>usedSize\<close>, the map and the capacity as they were.
\<close>

theorem Terminate_untracked_id:
  assumes "uploads store id' = None"
    and "ds_Terminate (TerminaterDataStore store) (received store) id' = None"
  shows "fst (Terminate id' store) = None
    \<and> usedSize (snd (Terminate id' store)) = usedSize store
    \<and> uploads (snd (Terminate id' store)) = uploads store
    \<and> StoreSize (snd (Terminate id' store)) = StoreSize store"
  using assms by (simp add: Terminate_def terminate_def Let_def fun_upd_idem)

theorem Terminate_untracked_id_witness:
  "uploads (example_store reliable_store) ''ghost'' = None
   \<and> ds_Terminate (TerminaterDataStore (example_store reliable_store))
        (received (example_store reliable_store)) ''ghost'' = None
   \<and> fst (Terminate ''ghost'' (example_store reliable_store)) = None
   \<and> usedSize (snd (Terminate ''ghost'' (example_store reliable_store))) = 95
   \<and> uploads (snd (Terminate ''ghost'' (example_store reliable_store)))
       = uploads (example_store reliable_store)"
proof -
  let ?s = "example_store reliable_store"
  have untracked: "uploads ?s ''ghost'' = None"
    by (simp add: example_store_def example_uploads_def)
  have accepted: "ds_Terminate (TerminaterDataStore ?s) (received ?s) ''ghost'' = None"
    by (simp add: example_store_def reliable_store_def)
  have "usedSize ?s = 95"
    by (simp add: example_store_def)
  with Terminate_untracked_id [OF untracked accepted] untracked accepted show ?thesis
    by simp
qed

section \<open>Calls passed on to the wrapped store\<close>

text \<open>
  C8. When the wrapped store lacks the interface, \<open>GetReader\<close> and \<open>ConcatUploads\<close>
  return \<open>ErrNotImplemented\<close>, while \<open>LockUpload\<close>, \<open>UnlockUpload\<close> and \<open>FinishUpload\<close>
  return \<open>nil\<close>; in all five cases the store is returned as it was, so the wrapped
  store has received no call. When the interface is there, the result is what the
  wrapped store's method returns for the same arguments, and that one call is all
  that changes.
\<close>

theorem passes_calls_to_wrapped_store:
  "(ds_GetReader (TerminaterDataStore store) = None \<longrightarrow>
       GetReader id' store = ((None, Some ErrNotImplemented), store))
 \<and> (\<forall>s. ds_GetReader (TerminaterDataStore store) = Some s \<longrightarrow>
       GetReader id' store
         = (s (received store) id', store\<lparr>received := received store @ [CallGetReader id']\<rparr>))
 \<and> (ds_ConcatUploads (TerminaterDataStore store) = None \<longrightarrow>
       ConcatUploads dest src store = (Some ErrNotImplemented, store))
 \<and> (\<forall>s. ds_ConcatUploads (TerminaterDataStore store) = Some s \<longrightarrow>
       ConcatUploads dest src store
         = (s (received store) dest src,
            store\<lparr>received := received store @ [CallConcatUploads dest src]\<rparr>))
 \<and> (ds_Locker (TerminaterDataStore store) = None \<longrightarrow>
       LimitedStore_LockUpload id' store = (None, store)
     \<and> LimitedStore_UnlockUpload id' store = (None, store))
 \<and> (\<forall>lock unlock. ds_Locker (TerminaterDataStore store) = Some (lock, unlock) \<longrightarrow>
       LimitedStore_LockUpload id' store
         = (lock (received store) id',
            store\<lparr>received := received store @ [CallLockUpload id']\<rparr>)
     \<and> LimitedStore_UnlockUpload id' store
         = (unlock (received store) id',
            store\<lparr>received := received store @ [CallUnlockUpload id']\<rparr>))
 \<and> (ds_FinishUpload (TerminaterDataStore store) = None \<longrightarrow>
       FinishUpload id' store = (None, store))
 \<and> (\<forall>s. ds_FinishUpload (TerminaterDataStore store) = Some s \<longrightarrow>
       FinishUpload id' store
         = (s (received store) id',
            store\<lparr>received := received store @ [CallFinishUpload id']\<rparr>))"
  by (simp add: GetReader_def ConcatUploads_def LimitedStore_LockUpload_def
      LimitedStore_UnlockUpload_def FinishUpload_def)

theorem passes_calls_to_wrapped_store_witness:
  "GetReader ''a'' (New 40 reliable_store)
     = ((None, Some ErrNotImplemented), New 40 reliable_store)
   \<and> ConcatUploads ''a'' [''b'', ''c''] (New 40 reliable_store)
     = (Some ErrNotImplemented, New 40 reliable_store)
   \<and> LimitedStore_LockUpload ''a'' (New 40 reliable_store) = (None, New 40 reliable_store)
   \<and> LimitedStore_UnlockUpload ''a'' (New 40 reliable_store) = (None, New 40 reliable_store)
   \<and> FinishUpload ''a'' (New 40 reliable_store) = (None, New 40 reliable_store)
   \<and> fst (GetReader ''a'' (New 40 capable_store)) = (Some ''bytes of a'', None)
   \<and> received (snd (GetReader ''a'' (New 40 capable_store))) = [CallGetReader ''a'']
   \<and> fst (ConcatUploads ''a'' [''b'', ''c''] (New 40 capable_store)) = None
   \<and> received (snd (ConcatUploads ''a'' [''b'', ''c''] (New 40 capable_store)))
       = [CallConcatUploads ''a'' [''b'', ''c'']]
   \<and> fst (LimitedStore_LockUpload ''a'' (New 40 capable_store)) = Some ErrFileLocked
   \<and> received (snd (LimitedStore_LockUpload ''a'' (New 40 capable_store))) = [CallLockUpload ''a'']
   \<and> fst (LimitedStore_UnlockUpload ''a'' (New 40 capable_store)) = None
   \<and> received (snd (LimitedStore_UnlockUpload ''a'' (New 40 capable_store)))
       = [CallUnlockUpload ''a'']
   \<and> fst (FinishUpload ''a'' (New 40 capable_store)) = Some (ErrOther ''hook'')
   \<and> received (snd (FinishUpload ''a'' (New 40 capable_store))) = [CallFinishUpload ''a'']"
proof -
  let ?plain = "New 40 reliable_store"
  let ?rich = "New 40 capable_store"
  have absent: "ds_GetReader (TerminaterDataStore ?plain) = None"
    "ds_ConcatUploads (TerminaterDataStore ?plain) = None"
    "ds_Locker (TerminaterDataStore ?plain) = None"
    "ds_FinishUpload (TerminaterDataStore ?plain) = None"
    by (simp_all add: New_def reliable_store_def)
  have present:
    "ds_GetReader (TerminaterDataStore ?rich) = Some (\<lambda>h id'. (Some (''bytes of '' @ id'), None))"
    "ds_ConcatUploads (TerminaterDataStore ?rich) = Some (\<lambda>h dest src. None)"
    "ds_Locker (TerminaterDataStore ?rich) = Some (\<lambda>h id'. Some ErrFileLocked, \<lambda>h id'. None)"
    "ds_FinishUpload (TerminaterDataStore ?rich) = Some (\<lambda>h id'. Some (ErrOther ''hook''))"
    by (simp_all add: New_def capable_store_def)
  have empty: "received ?rich = []"
    by (simp add: New_def)
  from passes_calls_to_wrapped_store [of ?plain "''a''" "''a''" "[''b'', ''c'']"] absent
  have plain: "GetReader ''a'' ?plain = ((None, Some ErrNotImplemented), ?plain)"
    "ConcatUploads ''a'' [''b'', ''c''] ?plain = (Some ErrNotImplemented, ?plain)"
    "LimitedStore_LockUpload ''a'' ?plain = (None, ?plain)"
    "LimitedStore_UnlockUpload ''a'' ?plain = (None, ?plain)"
    "FinishUpload ''a'' ?plain = (None, ?plain)"
    by blast+
  from passes_calls_to_wrapped_store [of ?rich "''a''" "''a''" "[''b'', ''c'']"] present
  have rich:
    "GetReader ''a'' ?rich
       = ((Some (''bytes of '' @ ''a''), None),
          ?rich\<lparr>received := received ?rich @ [CallGetReader ''a'']\<rparr>)"
    "ConcatUploads ''a'' [''b'', ''c''] ?rich
       = (None, ?rich\<lparr>received := received ?rich @ [CallConcatUploads ''a'' [''b'', ''c'']]\<rparr>)"
    "LimitedStore_LockUpload ''a'' ?rich
       = (Some ErrFileLocked, ?rich\<lparr>received := received ?rich @ [CallLockUpload ''a'']\<rparr>)"
    "LimitedStore_UnlockUpload ''a'' ?rich
       = (None, ?rich\<lparr>received := received ?rich @ [CallUnlockUpload ''a'']\<rparr>)"
    "FinishUpload ''a'' ?rich
       = (Some (ErrOther ''hook''), ?rich\<lparr>received := received ?rich @ [CallFinishUpload ''a'']\<rparr>)"
    by blast+
  from plain rich empty show ?thesis
    by simp
qed

section \<open>Routes of the handler\<close>

text \<open>
  C9. When \<open>NewUnroutedHandler\<close> fails, \<open>NewHandler\<close> returns its error and no handler.
  Otherwise the handler it returns serves through a mux that holds the registrations
  for POST, HEAD and PATCH, followed by the one for DELETE exactly when the configured
  data store has \<open>Terminate\<close>, followed by the one for GET exactly when it has
  \<open>GetReader\<close>, and nothing else. The mux is a component of the handler that is
  returned, and \<open>ServeHTTP\<close> consults nothing else, so the choice is made when the
  handler is built and stays as made.
\<close>

theorem NewHandler_attaches_by_capability:
  "(\<forall>err. NewUnroutedHandler config = Inl err \<longrightarrow>
       NewHandler NewUnroutedHandler CompleteUploads_of config = Inl err)
   \<and> (\<forall>handler. NewUnroutedHandler config = Inr handler \<longrightarrow>
       (\<exists>rHandler mux.
           NewHandler NewUnroutedHandler CompleteUploads_of config = Inr rHandler
         \<and> ServeHTTP rHandler = Middleware handler mux
         \<and> mux = [Post '''' PostFile, Head '':id'' HeadFile, Add ''PATCH'' '':id'' PatchFile]
                 @ (if is_TerminaterDataStore (DataStore config) then [Del '':id'' DelFile] else [])
                 @ (if is_GetReaderDataStore (DataStore config) then [Get '':id'' GetFile] else [])
         \<and> ((\<exists>pat h. Del pat h \<in> set mux) \<longleftrightarrow> is_TerminaterDataStore (DataStore config))
         \<and> ((\<exists>pat h. Get pat h \<in> set mux) \<longleftrightarrow> is_GetReaderDataStore (DataStore config))
         \<and> (\<exists>pat h. Post pat h \<in> set mux)
         \<and> (\<exists>pat h. Head pat h \<in> set mux)
         \<and> (\<exists>pat h. Add ''PATCH'' pat h \<in> set mux)))"
  by (auto simp add: NewHandler_def ServeHTTP_def Let_def)

theorem NewHandler_attaches_by_capability_witness:
  "ServeHTTP (projr (NewHandler Inr (\<lambda>u. ())
       \<lparr>DataStore = Some \<lparr>has_Terminate = True, has_GetReader = False\<rparr>, MaxSize = 400\<rparr>))
     = Middleware \<lparr>DataStore = Some \<lparr>has_Terminate = True, has_GetReader = False\<rparr>, MaxSize = 400\<rparr>
         [Post '''' PostFile, Head '':id'' HeadFile, Add ''PATCH'' '':id'' PatchFile,
          Del '':id'' DelFile]
   \<and> ServeHTTP (projr (NewHandler Inr (\<lambda>u. ()) \<lparr>DataStore = None, MaxSize = 400\<rparr>))
     = Middleware \<lparr>DataStore = None, MaxSize = 400\<rparr>
         [Post '''' PostFile, Head '':id'' HeadFile, Add ''PATCH'' '':id'' PatchFile]
   \<and> NewHandler (\<lambda>c. Inl (ErrOther ''bad base path'')) (\<lambda>u. ())
        \<lparr>DataStore = None, MaxSize = 400\<rparr>
       = (Inl (ErrOther ''bad base path'') :: error + (unit, unit) Handler)"
proof -
  let ?deleting = "\<lparr>DataStore = Some \<lparr>has_Terminate = True, has_GetReader = False\<rparr>, MaxSize = 400\<rparr>"
  let ?bare = "\<lparr>DataStore = None, MaxSize = 400\<rparr>"
  have caps: "is_TerminaterDataStore (DataStore ?deleting)"
    "\<not> is_GetReaderDataStore (DataStore ?deleting)"
    "\<not> is_TerminaterDataStore (DataStore ?bare)"
    "\<not> is_GetReaderDataStore (DataStore ?bare)"
    by (simp_all add: is_TerminaterDataStore_def is_GetReaderDataStore_def)
  from NewHandler_attaches_by_capability [of Inr ?deleting "\<lambda>u. ()"] caps
  have one: "ServeHTTP (projr (NewHandler Inr (\<lambda>u. ()) ?deleting))
     = Middleware ?deleting
         [Post '''' PostFile, Head '':id'' HeadFile, Add ''PATCH'' '':id'' PatchFile,
          Del '':id'' DelFile]"
    by auto
  from NewHandler_attaches_by_capability [of Inr ?bare "\<lambda>u. ()"] caps
  have two: "ServeHTTP (projr (NewHandler Inr (\<lambda>u. ()) ?bare))
     = Middleware ?bare
         [Post '''' PostFile, Head '':id'' HeadFile, Add ''PATCH'' '':id'' PatchFile]"
    by auto
  from NewHandler_attaches_by_capability
    [of "\<lambda>c. Inl (ErrOther ''bad base path'') :: error + unit" ?bare "\<lambda>u. ()"]
  have three: "NewHandler (\<lambda>c. Inl (ErrOther ''bad base path'')) (\<lambda>u. ()) ?bare
       = (Inl (ErrOther ''bad base path'') :: error + (unit, unit) Handler)"
    by auto
  from one two three show ?thesis
    by (simp only: simp_thms)
qed

end
